theory Spec2Isabelle
  imports Main "HOL-Library.Word" "HOL-Library.Signed_Division"
begin

section \<open>Conway's Game of Life (cgol.c): the program state\<close>

text \<open>
  The globals of cgol.c as one record. Cell values, dimensions and flat offsets are C
  \<open>int\<close>s that stay far below \<open>2^31\<close> on the 256 x 256 grid the program allocates, so they are
  modelled as \<open>int\<close>; the counters that only ever count (\<open>generation\<close>, and \<open>gen\<close>, \<open>ticks\<close>
  of \<open>main\<close>) are 32-bit words, read as two's complement by \<open>sint\<close>.
  C's \<open>/\<close> and \<open>%\<close> truncate towards zero: \<open>sdiv\<close> and \<open>smod\<close>.
\<close>

record state =
  gw :: int
  gh :: int
  gs :: int
  grid :: "int list"
  diff :: "int list"
  rows :: int
  cols :: int
  generation :: "32 word"

text \<open>
  An array access outside the allocation is undefined behaviour in C; here it is the
  value \<open>None\<close>, and every function that touches a buffer propagates it.
\<close>

definition rd :: "int list \<Rightarrow> int \<Rightarrow> int option" where
  "rd a i = (if 0 \<le> i \<and> i < int (length a) then Some (a ! nat i) else None)"

definition wr :: "int list \<Rightarrow> int \<Rightarrow> int \<Rightarrow> int list option" where
  "wr a i v = (if 0 \<le> i \<and> i < int (length a) then Some (a[nat i := v]) else None)"

section \<open>neighbors\<close>

text \<open>The array \<open>sides\<close> of \<open>neighbors(pos)\<close>: eight flat offsets, \<open>-1\<close> for a position off the grid.\<close>

definition sides :: "int \<Rightarrow> int \<Rightarrow> int \<Rightarrow> int list" where
  "sides w h pos =
     (let r = pos sdiv w; c = pos smod w in
      [ if r - 1 \<ge> 0 \<and> c - 1 \<ge> 0 then (r - 1) * w + (c - 1) else - 1,
        if r - 1 \<ge> 0 then (r - 1) * w + c else - 1,
        if r - 1 \<ge> 0 \<and> c + 1 < w then (r - 1) * w + (c + 1) else - 1,
        if c + 1 < w then r * w + (c + 1) else - 1,
        if r + 1 < h \<and> c + 1 < w then (r + 1) * w + (c + 1) else - 1,
        if r + 1 < h then (r + 1) * w + c else - 1,
        if r + 1 < h \<and> c - 1 \<ge> 0 then (r + 1) * w + (c - 1) else - 1,
        if c - 1 \<ge> 0 then r * w + (c - 1) else - 1 ])"

text \<open>The loop \<open>for(i = 0; i < LENGTH(sides); ++i) n += sides[i] >= 0 ? grid[sides[i]] : 0\<close>.\<close>

fun sum_sides :: "int list \<Rightarrow> int list \<Rightarrow> int \<Rightarrow> int option" where
  "sum_sides g [] n = Some n"
| "sum_sides g (x # xs) n =
     (if x \<ge> 0
      then (case rd g x of None \<Rightarrow> None | Some v \<Rightarrow> sum_sides g xs (n + v))
      else sum_sides g xs (n + 0))"

definition neighbors :: "state \<Rightarrow> int \<Rightarrow> int option" where
  "neighbors s pos = sum_sides (grid s) (sides (gw s) (gh s) pos) 0"

section \<open>tick\<close>

text \<open>The branch of the first loop of \<open>tick\<close>: the value stored in \<open>diff[i]\<close>.\<close>

definition rule :: "int \<Rightarrow> int \<Rightarrow> int" where
  "rule g n = (if g = 1 \<and> (n < 2 \<or> n > 3) then 0 else if g = 0 \<and> n = 3 then 1 else g)"

text \<open>First loop of \<open>tick\<close>, from index \<open>i\<close> on: reads \<open>grid\<close>, writes \<open>diff\<close>.\<close>

function tick_eval :: "state \<Rightarrow> int \<Rightarrow> state option" where
  "tick_eval s i =
     (if i < gs s then
        (case neighbors s i of None \<Rightarrow> None | Some n \<Rightarrow>
           (case rd (grid s) i of None \<Rightarrow> None | Some g \<Rightarrow>
              (case wr (diff s) i (rule g n) of None \<Rightarrow> None
               | Some d \<Rightarrow> tick_eval (s\<lparr>diff := d\<rparr>) (i + 1))))
      else Some s)"
  by pat_completeness auto
termination
  by (relation "measure (\<lambda>(s, i). nat (gs s - i))") auto

text \<open>Second loop of \<open>tick\<close>, from index \<open>i\<close> on: copies the cells of \<open>diff\<close> that differ.\<close>

function tick_commit :: "state \<Rightarrow> int \<Rightarrow> state option" where
  "tick_commit s i =
     (if i < gs s then
        (case rd (grid s) i of None \<Rightarrow> None | Some g \<Rightarrow>
           (case rd (diff s) i of None \<Rightarrow> None | Some d \<Rightarrow>
              (if g \<noteq> d
               then (case wr (grid s) i d of None \<Rightarrow> None
                     | Some g' \<Rightarrow> tick_commit (s\<lparr>grid := g'\<rparr>) (i + 1))
               else tick_commit s (i + 1))))
      else Some s)"
  by pat_completeness auto
termination
  by (relation "measure (\<lambda>(s, i). nat (gs s - i))") auto

definition tick :: "state \<Rightarrow> state option" where
  "tick s =
     (case tick_eval s 0 of None \<Rightarrow> None | Some s1 \<Rightarrow>
        (case tick_commit s1 0 of None \<Rightarrow> None
         | Some s2 \<Rightarrow> Some (s2\<lparr>generation := generation s2 + 1\<rparr>)))"

declare tick_eval.simps [simp del] tick_commit.simps [simp del]

section \<open>Well-formed states and the two-dimensional reading of the grid\<close>

text \<open>
  The buffers hold \<open>gs\<close> cells each and \<open>gs\<close> is the number of cells of a
  \<open>gw\<close> x \<open>gh\<close> grid.
\<close>

definition well_formed :: "state \<Rightarrow> bool" where
  "well_formed s \<longleftrightarrow> 0 < gw s \<and> 0 < gh s \<and> gw s * gh s = gs s
             \<and> int (length (grid s)) = gs s \<and> int (length (diff s)) = gs s"

text \<open>
  The cell at row \<open>r\<close>, column \<open>c\<close> of the current buffer (flat offset \<open>r * gw + c\<close>); a
  position off the grid counts as dead.
\<close>

definition cell_at :: "state \<Rightarrow> int \<Rightarrow> int \<Rightarrow> int" where
  "cell_at s r c =
     (if 0 \<le> r \<and> r < gh s \<and> 0 \<le> c \<and> c < gw s then grid s ! nat (r * gw s + c) else 0)"

text \<open>The live-neighbour count of the glossary: the sum over the eight adjacent positions.\<close>

definition live_neighbors :: "state \<Rightarrow> int \<Rightarrow> int \<Rightarrow> int" where
  "live_neighbors s r c =
     cell_at s (r - 1) (c - 1) + cell_at s (r - 1) c + cell_at s (r - 1) (c + 1)
   + cell_at s r (c + 1)
   + cell_at s (r + 1) (c + 1) + cell_at s (r + 1) c + cell_at s (r + 1) (c - 1)
   + cell_at s r (c - 1)"

text \<open>The flat offset of a position inside \<open>[0,h) x [0,w)\<close>, the sentinel \<open>-1\<close> outside.\<close>

definition offset :: "int \<Rightarrow> int \<Rightarrow> int \<Rightarrow> int \<Rightarrow> int" where
  "offset w h r c = (if 0 \<le> r \<and> r < h \<and> 0 \<le> c \<and> c < w then r * w + c else - 1)"

text \<open>
  The rule of the specification (RuleEngine, \<open>next_state\<close>): an alive cell survives with 2
  or 3 live neighbours and dies otherwise, a dead cell is born with exactly 3, anything
  else is unchanged.
\<close>

definition spec_next_state :: "int \<Rightarrow> int \<Rightarrow> int" where
  "spec_next_state cur n =
     (if cur = 1 then (if n = 2 \<or> n = 3 then 1 else 0)
      else if cur = 0 then (if n = 3 then 1 else 0)
      else cur)"

text \<open>The whole next generation, cell by cell, from the current buffer.\<close>

definition next_gen :: "state \<Rightarrow> int list" where
  "next_gen s =
     map (\<lambda>i. rule (grid s ! i) (live_neighbors s (int i div gw s) (int i mod gw s)))
       [0..<nat (gs s)]"

text \<open>A 5 x 3 grid holding a horizontal blinker, before the first generation.\<close>

definition blinker5x3 :: state where
  "blinker5x3 =
     \<lparr>gw = 5, gh = 3, gs = 15,
      grid = [0,0,0,0,0, 0,1,1,1,0, 0,0,0,0,0],
      diff = [0,0,0,0,0, 0,0,0,0,0, 0,0,0,0,0],
      rows = 24, cols = 80, generation = 0\<rparr>"

section \<open>The blinker\<close>

text \<open>
  The state of the cell at row \<open>a\<close>, column \<open>b\<close> in a horizontal line of three live cells
  centred on row \<open>r\<close>, column \<open>c\<close> (\<open>hcell\<close>), and in the vertical line with the same
  centre (\<open>vcell\<close>); \<open>hline\<close> and \<open>vline\<close> are the \<open>w\<close> x \<open>h\<close> buffers that hold
  exactly these lines.
\<close>

definition hcell :: "int \<Rightarrow> int \<Rightarrow> int \<Rightarrow> int \<Rightarrow> int" where
  "hcell r c a b = (if a = r \<and> c - 1 \<le> b \<and> b \<le> c + 1 then 1 else 0)"

definition vcell :: "int \<Rightarrow> int \<Rightarrow> int \<Rightarrow> int \<Rightarrow> int" where
  "vcell r c a b = (if b = c \<and> r - 1 \<le> a \<and> a \<le> r + 1 then 1 else 0)"

definition hline :: "int \<Rightarrow> int \<Rightarrow> int \<Rightarrow> int \<Rightarrow> int list" where
  "hline w h r c = map (\<lambda>i. hcell r c (int i div w) (int i mod w)) [0..<nat (w * h)]"

definition vline :: "int \<Rightarrow> int \<Rightarrow> int \<Rightarrow> int \<Rightarrow> int list" where
  "vline w h r c = map (\<lambda>i. vcell r c (int i div w) (int i mod w)) [0..<nat (w * h)]"

section \<open>gridrand\<close>

text \<open>
  \<open>random()\<close> is the C library's generator: \<open>rnd k\<close> is the value of its \<open>k\<close>-th call
  after \<open>srandom\<close>, and the number of calls made so far is threaded through the loops.
  \<open>rand_cell v\<close> is \<open>v % 4 ? 0 : 1\<close>.
\<close>

definition rand_cell :: "int \<Rightarrow> int" where
  "rand_cell v = (if v smod 4 \<noteq> 0 then 0 else 1)"

text \<open>
  Inner loop of \<open>gridrand\<close>, row \<open>r\<close>, from column \<open>c\<close> on; it returns the buffer and the
  number of draws made.
\<close>

function gridrand_cols :: "(nat \<Rightarrow> int) \<Rightarrow> int \<Rightarrow> state \<Rightarrow> nat \<Rightarrow> int \<Rightarrow> int \<Rightarrow> (int list \<times> nat) option" where
  "gridrand_cols rnd w s k r c =
     (if c < w \<and> c < gw s then
        (case wr (grid s) (r * gw s + c) (rand_cell (rnd k)) of None \<Rightarrow> None
         | Some g \<Rightarrow> gridrand_cols rnd w (s\<lparr>grid := g\<rparr>) (Suc k) r (c + 1))
      else Some (grid s, k))"
  by pat_completeness auto
termination
  by (relation "measure (\<lambda>(rnd, w, s, k, r, c). nat (min w (gw s) - c))") auto

declare gridrand_cols.simps [simp del]

text \<open>Outer loop of \<open>gridrand\<close>, from row \<open>r\<close> on.\<close>

function gridrand_rows :: "(nat \<Rightarrow> int) \<Rightarrow> int \<Rightarrow> int \<Rightarrow> state \<Rightarrow> nat \<Rightarrow> int \<Rightarrow> (state \<times> nat) option" where
  "gridrand_rows rnd w h s k r =
     (if r < h \<and> r < gh s then
        (case gridrand_cols rnd w s k r 0 of None \<Rightarrow> None
         | Some (g, k') \<Rightarrow> gridrand_rows rnd w h (s\<lparr>grid := g\<rparr>) k' (r + 1))
      else Some (s, k))"
  by pat_completeness auto
termination
  by (relation "measure (\<lambda>(rnd, w, h, s, k, r). nat (min h (gh s) - r))")
     auto

declare gridrand_rows.simps [simp del]

definition gridrand :: "(nat \<Rightarrow> int) \<Rightarrow> int \<Rightarrow> int \<Rightarrow> state \<Rightarrow> nat \<Rightarrow> (state \<times> nat) option" where
  "gridrand rnd w h s k = gridrand_rows rnd w h s k 0"


text \<open>A dead 3 x 3 grid under a 2 x 2 viewport.\<close>

definition dead3x3 :: state where
  "dead3x3 =
     \<lparr>gw = 3, gh = 3, gs = 9,
      grid = [0,0,0, 0,0,0, 0,0,0],
      diff = [0,0,0, 0,0,0, 0,0,0],
      rows = 2, cols = 2, generation = 0\<rparr>"

section \<open>draw\<close>

text \<open>
  What \<open>printf("%d", n)\<close> writes: the decimal digits, with a minus sign for a negative
  number. The format \<open>%0d\<close> of the header has the flag \<open>0\<close> and no width, and prints the same.
\<close>

definition digit :: "nat \<Rightarrow> char" where
  "digit d = ''0123456789'' ! d"

function show_nat :: "nat \<Rightarrow> string" where
  "show_nat n = (if n < 10 then [digit n] else show_nat (n div 10) @ [digit (n mod 10)])"
  by pat_completeness auto
termination
  by (relation "measure id") auto

declare show_nat.simps [simp del]

definition show_int :: "int \<Rightarrow> string" where
  "show_int i = (if i < 0 then CHR ''-'' # show_nat (nat (- i)) else show_nat (nat i))"

text \<open>The VT100 escape sequences; \<open>\33\<close> is the byte \<open>0x1B\<close>.\<close>

definition CLEARRIGHT :: string where
  "CLEARRIGHT = CHR 0x1B # ''[0K''"

definition CURPOS :: "int \<Rightarrow> int \<Rightarrow> string" where
  "CURPOS a b = CHR 0x1B # ''['' @ show_int a @ '';'' @ show_int b @ ''H''"

definition CURSON :: string where
  "CURSON = CHR 0x1B # ''[?25h''"

definition CURSOFF :: string where
  "CURSOFF = CHR 0x1B # ''[?25l''"

text \<open>\<open>mvprintf(x, y, fmt, ...)\<close> with the formatted text \<open>txt\<close>: the cursor goes to line \<open>y\<close>, column \<open>x\<close>.\<close>

definition mvprintf :: "int \<Rightarrow> int \<Rightarrow> string \<Rightarrow> string" where
  "mvprintf x y txt = CURPOS y x @ txt"

text \<open>The separator of the header, the UTF-8 bytes of the dot operator between two blanks.\<close>

definition dot_sep :: string where
  "dot_sep = '' '' @ [CHR 0xE2, CHR 0x8B, CHR 0x85] @ '' ''"

text \<open>The text of the header: \<open>"Conway's Game of Life . #%d . %0dx%0d" CLEARRIGHT\<close> with its arguments.\<close>

definition header_text :: "32 word \<Rightarrow> int \<Rightarrow> int \<Rightarrow> string" where
  "header_text g a b =
     ''Conway'' @ [CHR 0x27] @ ''s Game of Life'' @ dot_sep @ ''#'' @ show_int (sint g)
     @ dot_sep @ show_int a @ ''x'' @ show_int b @ CLEARRIGHT"

text \<open>The glyph of a cell: reverse video blank for a live cell, a blank for a dead one.\<close>

definition glyph :: "int \<Rightarrow> string" where
  "glyph v = (if v \<noteq> 0 then CHR 0x1B # ''[07m '' @ CHR 0x1B # ''[m'' else '' '')"

text \<open>Inner loop of \<open>draw\<close>, row \<open>r\<close>, from column \<open>c\<close> on; the output is appended to \<open>out\<close>.\<close>

function draw_cols :: "state \<Rightarrow> int \<Rightarrow> int \<Rightarrow> string \<Rightarrow> string option" where
  "draw_cols s r c out =
     (if c < cols s \<and> c < gw s then
        (case rd (grid s) (r * gw s + c) of None \<Rightarrow> None
         | Some v \<Rightarrow> draw_cols s r (c + 1) (out @ mvprintf (1 + c) (2 + r) (glyph v)))
      else Some out)"
  by pat_completeness auto
termination
  by (relation "measure (\<lambda>(s, r, c, out). nat (min (cols s) (gw s) - c))") auto

text \<open>Outer loop of \<open>draw\<close>, from row \<open>r\<close> on.\<close>

function draw_rows :: "state \<Rightarrow> int \<Rightarrow> string \<Rightarrow> string option" where
  "draw_rows s r out =
     (if r < rows s - 1 \<and> r < gh s then
        (case draw_cols s r 0 out of None \<Rightarrow> None
         | Some out' \<Rightarrow> draw_rows s (r + 1) out')
      else Some out)"
  by pat_completeness auto
termination
  by (relation "measure (\<lambda>(s, r, out). nat (min (rows s - 1) (gh s) - r))") auto

declare draw_cols.simps [simp del] draw_rows.simps [simp del]

text \<open>\<open>draw\<close>: everything it writes to standard output, or \<open>None\<close> when a read leaves the buffer.\<close>

definition draw :: "state \<Rightarrow> string option" where
  "draw s =
     (case draw_rows s 0
             (CURSOFF @ mvprintf 1 1 (header_text (generation s) (rows s) (cols s))) of
        None \<Rightarrow> None
      | Some out \<Rightarrow> Some (out @ CURPOS (rows s) (cols s) @ CURSON))"

text \<open>The output starts with the text \<open>p\<close>; a run that leaves the buffer has no output.\<close>

definition starts_with :: "string \<Rightarrow> string option \<Rightarrow> bool" where
  "starts_with p out = (case out of None \<Rightarrow> False | Some t \<Rightarrow> take (length p) t = p)"

text \<open>
  The header as the specification describes it (Renderer): the generation number and the
  dimensions of the grid, width by height.
\<close>

definition spec_header :: "state \<Rightarrow> string" where
  "spec_header s = mvprintf 1 1 (header_text (generation s) (gw s) (gh s))"

text \<open>
  The state \<open>main\<close> reaches on an 80 x 24 terminal once both buffers are allocated: the
  default 256 x 256 grid, every cell dead.
\<close>

definition fresh256 :: state where
  "fresh256 =
     \<lparr>gw = 256, gh = 256, gs = 65536,
      grid = replicate 65536 0, diff = replicate 65536 0,
      rows = 24, cols = 80, generation = 0\<rparr>"

section \<open>gridfile\<close>

text \<open>
  \<open>getline\<close> hands the file over line by line, each line with its newline when it has
  one; \<open>getlines\<close> is the sequence of lines of a file's content.
\<close>

fun lines_acc :: "string \<Rightarrow> string \<Rightarrow> string list" where
  "lines_acc cur [] = (if cur = [] then [] else [cur])"
| "lines_acc cur (ch # cs) =
     (if ch = CHR 0x0A then (cur @ [ch]) # lines_acc [] cs else lines_acc (cur @ [ch]) cs)"

definition getlines :: "string \<Rightarrow> string list" where
  "getlines content = lines_acc [] content"

text \<open>
  \<open>*p\<close> at offset \<open>p\<close> of the buffer \<open>getline\<close> filled with the line \<open>l\<close>: a byte of the
  line, the terminating NUL right after it, and beyond that bytes \<open>getline\<close> did not
  write for this line (stale or indeterminate): \<open>None\<close>.
\<close>

definition line_at :: "string \<Rightarrow> nat \<Rightarrow> char option" where
  "line_at l p =
     (if p < length l then Some (l ! p) else if p = length l then Some (CHR 0x00) else None)"

text \<open>
  Inner loop of \<open>gridfile\<close> on line \<open>l\<close>, row \<open>r\<close>, from column \<open>c\<close> and offset \<open>p\<close> on;
  it returns the buffer.
\<close>

function gridfile_line :: "state \<Rightarrow> string \<Rightarrow> int \<Rightarrow> int \<Rightarrow> nat \<Rightarrow> int list option" where
  "gridfile_line s l r c p =
     (case line_at l p of None \<Rightarrow> None
      | Some ch \<Rightarrow>
          if ch \<noteq> CHR 0x00 \<and> ch \<noteq> CHR 0x0A then
            (case wr (grid s) (r * gw s + c) (if ch = CHR ''1'' then 1 else 0) of None \<Rightarrow> None
             | Some g \<Rightarrow> gridfile_line (s\<lparr>grid := g\<rparr>) l r (c + 1) (p + 2))
          else Some (grid s))"
  by pat_completeness auto
termination
  by (relation "measure (\<lambda>(s, l, r, c, p). length l + 2 - p)")
     (auto simp: line_at_def split: if_splits)

text \<open>Outer loop of \<open>gridfile\<close>: the lines that are left, the next one being row \<open>r\<close>.\<close>

fun gridfile_rows :: "state \<Rightarrow> string list \<Rightarrow> int \<Rightarrow> state option" where
  "gridfile_rows s [] r = Some s"
| "gridfile_rows s (l # ls) r =
     (case gridfile_line s l r 0 0 of None \<Rightarrow> None
      | Some g \<Rightarrow> gridfile_rows (s\<lparr>grid := g\<rparr>) ls (r + 1))"

text \<open>
  \<open>gridfile\<close>: the file is \<open>None\<close> when \<open>fopen\<close> fails, and its content otherwise; the result
  is the return value and the state, or \<open>None\<close> when a write leaves the buffer or a read
  leaves the line.
\<close>

definition gridfile :: "string option \<Rightarrow> state \<Rightarrow> (int \<times> state) option" where
  "gridfile file s =
     (case file of None \<Rightarrow> Some (- 1, s)
      | Some content \<Rightarrow>
          (case gridfile_rows s (getlines content) 0 of None \<Rightarrow> None
           | Some s' \<Rightarrow> Some (0, s')))"

declare gridfile_line.simps [simp del]

section \<open>main\<close>

text \<open>
  How a run ends: \<open>exit\<close> or the return of \<open>main\<close> with a status, or undefined behaviour
  (an access outside a buffer).
\<close>

datatype outcome = Exited int | Fault

text \<open>\<open>die\<close> prints its message to standard error and calls \<open>exit(0)\<close>; \<open>usage\<close> is a call of \<open>die\<close>.\<close>

definition die :: outcome where
  "die = Exited 0"

definition usage :: outcome where
  "usage = die"

text \<open>
  The world around the program: the terminal size \<open>ioctl\<close> reports (two \<open>unsigned short\<close>),
  whether the two calls of \<open>calloc\<close> succeed, the files \<open>fopen\<close> can open with their
  content, and the values \<open>random()\<close> returns.
\<close>

record env =
  ws_row :: "16 word"
  ws_col :: "16 word"
  calloc_grid_ok :: bool
  calloc_diff_ok :: bool
  fopen :: "string \<Rightarrow> string option"
  rand_draw :: "nat \<Rightarrow> int"

text \<open>The locals \<open>delay\<close>, \<open>gen\<close>, \<open>ticks\<close> of \<open>main\<close>.\<close>

record config =
  delay :: "32 word"
  gen :: "32 word"
  ticks :: "32 word"

text \<open>
  \<open>atoi\<close> of the C library: blanks, an optional sign, decimal digits; the value as an \<open>int\<close>.
\<close>

definition isdigit :: "char \<Rightarrow> bool" where
  "isdigit ch \<longleftrightarrow> (48::nat) \<le> of_char ch \<and> of_char ch \<le> (57::nat)"

definition isspace :: "char \<Rightarrow> bool" where
  "isspace ch \<longleftrightarrow> ch = CHR 0x20 \<or> ((9::nat) \<le> of_char ch \<and> of_char ch \<le> (13::nat))"

fun digits_val :: "string \<Rightarrow> int \<Rightarrow> int" where
  "digits_val [] acc = acc"
| "digits_val (ch # cs) acc =
     (if isdigit ch then digits_val cs (10 * acc + (of_char ch - 48)) else acc)"

definition atoi :: "string \<Rightarrow> 32 word" where
  "atoi t =
     (case dropWhile isspace t of
        [] \<Rightarrow> 0
      | ch # cs \<Rightarrow>
          if ch = CHR ''-'' then word_of_int (- digits_val cs 0)
          else if ch = CHR ''+'' then word_of_int (digits_val cs 0)
          else word_of_int (digits_val (ch # cs) 0))"

text \<open>
  The header arg.h is not among the sources. The options that its \<open>ARGBEGIN\<close> loop hands
  to the \<open>switch\<close> of \<open>main\<close> are taken as a parameter: each is the option character with
  the argument \<open>EARGF\<close> finds for it, \<open>None\<close> when there is none, in which case
  \<open>EARGF(usage())\<close> calls \<open>usage\<close>. \<open>parse_opts\<close> is the \<open>switch\<close>.
\<close>

fun parse_opts :: "(char \<times> string option) list \<Rightarrow> config \<Rightarrow> outcome + config" where
  "parse_opts [] cf = Inr cf"
| "parse_opts ((ch, a) # os) cf =
     (if ch = CHR ''d'' then
        (case a of None \<Rightarrow> Inl usage | Some t \<Rightarrow> parse_opts os (cf\<lparr>delay := atoi t\<rparr>))
      else if ch = CHR ''g'' then
        (case a of None \<Rightarrow> Inl usage | Some t \<Rightarrow> parse_opts os (cf\<lparr>gen := atoi t\<rparr>))
      else if ch = CHR ''n'' then
        (case a of None \<Rightarrow> Inl usage | Some t \<Rightarrow> parse_opts os (cf\<lparr>ticks := atoi t\<rparr>))
      else if ch = CHR ''v'' then Inl die
      else Inl usage)"

text \<open>The globals before \<open>main\<close> runs: C initialises them to zero.\<close>

definition globals0 :: state where
  "globals0 = \<lparr>gw = 0, gh = 0, gs = 0, grid = [], diff = [], rows = 0, cols = 0, generation = 0\<rparr>"

text \<open>\<open>ecalloc(nmemb, sizeof(int))\<close>: \<open>nmemb\<close> zeroed cells, or \<open>die\<close> when \<open>calloc\<close> fails.\<close>

definition ecalloc :: "bool \<Rightarrow> int \<Rightarrow> outcome + int list" where
  "ecalloc ok nmemb = (if ok then Inr (replicate (nat nmemb) 0) else Inl die)"

text \<open>\<open>main\<close> from \<open>setup()\<close> to the second \<open>ecalloc\<close>.\<close>

definition startup :: "env \<Rightarrow> outcome + state" where
  "startup e =
     (let s0 = globals0\<lparr>rows := uint (ws_row e), cols := uint (ws_col e)\<rparr>;
          s1 = s0\<lparr>gw := (if gw s0 = 0 then 256 else gw s0)\<rparr>;
          s2 = s1\<lparr>gh := (if gh s1 = 0 then 256 else gh s1)\<rparr>;
          s3 = s2\<lparr>gs := gw s2 * gw s2\<rparr>
      in case ecalloc (calloc_grid_ok e) (gs s3) of Inl out \<Rightarrow> Inl out
         | Inr g \<Rightarrow>
             (case ecalloc (calloc_diff_ok e) (gs s3) of Inl out \<Rightarrow> Inl out
              | Inr d \<Rightarrow> Inr (s3\<lparr>grid := g, diff := d\<rparr>)))"

text \<open>The initial population: the pattern file \<open>argv[0]\<close> when there is one, \<open>gridrand\<close> otherwise.\<close>

definition populate :: "env \<Rightarrow> string list \<Rightarrow> state \<Rightarrow> outcome + state" where
  "populate e rest s =
     (case rest of
        file # _ \<Rightarrow>
          (case gridfile (fopen e file) s of None \<Rightarrow> Inl Fault
           | Some (rc, s') \<Rightarrow> if rc \<noteq> 0 then Inl die else Inr s')
      | [] \<Rightarrow>
          (case gridrand (rand_draw e) (cols s) (rows s) s 0 of None \<Rightarrow> Inl Fault
           | Some (s', k) \<Rightarrow> Inr s'))"

text \<open>The loop \<open>while(gen-- > 0) tick()\<close>.\<close>

function warmup :: "32 word \<Rightarrow> state \<Rightarrow> state option" where
  "warmup g s =
     (if 0 < sint g then (case tick s of None \<Rightarrow> None | Some s' \<Rightarrow> warmup (g - 1) s')
      else Some s)"
  by pat_completeness auto
termination
proof (relation "measure (\<lambda>(g, s). nat (sint g))")
  show "wf (measure (\<lambda>(g :: 32 word, s :: state). nat (sint g)))" by simp
next
  fix g :: "32 word" and s x2 :: state
  assume pos: "0 < sint g"
  have hi: "sint g < 2 ^ 31" using sint_lt[of g] by simp
  have "sint (g - 1) = signed_take_bit 31 (sint g - 1)"
    by (simp add: sint_word_diff)
  also have "\<dots> = sint g - 1"
    using pos hi by (intro signed_take_bit_int_eq_self) simp_all
  finally show "((g - 1, x2), (g, s)) \<in> measure (\<lambda>(g, s). nat (sint g))"
    using pos by simp
qed

declare warmup.simps [simp del]

text \<open>
  The loop \<open>while(1)\<close> of \<open>main\<close>, at most \<open>n\<close> cycles of it: \<open>draw\<close>, \<open>tick\<close>, then
  \<open>if(!--ticks) break\<close> and, after the loop, \<open>return 0\<close>; otherwise \<open>msleep\<close> and the next
  cycle. \<open>None\<close>: the loop is still running after \<open>n\<close> cycles.
\<close>

fun run :: "nat \<Rightarrow> 32 word \<Rightarrow> state \<Rightarrow> outcome option" where
  "run 0 t s = None"
| "run (Suc n) t s =
     (case draw s of None \<Rightarrow> Some Fault
      | Some out \<Rightarrow>
          (case tick s of None \<Rightarrow> Some Fault
           | Some s' \<Rightarrow> if t - 1 = 0 then Some (Exited 0) else run n (t - 1) s'))"

text \<open>
  \<open>main\<close>, given the options, the arguments after them and a number of cycles of the
  main loop to follow.
\<close>

definition main :: "env \<Rightarrow> (char \<times> string option) list \<Rightarrow> string list \<Rightarrow> nat \<Rightarrow> outcome option" where
  "main e opts rest n =
     (case parse_opts opts \<lparr>delay = 250, gen = 0, ticks = 0\<rparr> of Inl out \<Rightarrow> Some out
      | Inr cf \<Rightarrow>
          (case startup e of Inl out \<Rightarrow> Some out
           | Inr s \<Rightarrow>
               (case populate e rest s of Inl out \<Rightarrow> Some out
                | Inr s' \<Rightarrow>
                    (case warmup (gen cf) s' of None \<Rightarrow> Some Fault
                     | Some s'' \<Rightarrow> run n (ticks cf) s''))))"

text \<open>
  An 80 x 24 terminal, enough memory, one readable file, \<open>empty.txt\<close>, of length 0, and a
  generator that counts.
\<close>

definition env_tty :: env where
  "env_tty =
     \<lparr>ws_row = 24, ws_col = 80, calloc_grid_ok = True, calloc_diff_ok = True,
      fopen = (\<lambda>f. if f = ''empty.txt'' then Some [] else None),
      rand_draw = (\<lambda>k. int k)\<rparr>"

text \<open>
  The cells a line encodes, read as the specification describes the file format: the
  bytes at offsets \<open>p\<close>, \<open>p + 2\<close>, ... up to the newline or the end of the line, \<open>1\<close> for
  the byte \<open>'1'\<close> and \<open>0\<close> for any other; \<open>None\<close> when the end of the line is stepped over.
\<close>

function line_cells :: "string \<Rightarrow> nat \<Rightarrow> int list option" where
  "line_cells l p =
     (case line_at l p of None \<Rightarrow> None
      | Some ch \<Rightarrow>
          if ch \<noteq> CHR 0x00 \<and> ch \<noteq> CHR 0x0A then
            (case line_cells l (p + 2) of None \<Rightarrow> None
             | Some vs \<Rightarrow> Some ((if ch = CHR ''1'' then 1 else 0) # vs))
          else Some [])"
  by pat_completeness auto
termination
  by (relation "measure (\<lambda>(l, p). length l + 2 - p)")
     (auto simp: line_at_def split: if_splits)

declare line_cells.simps [simp del]

text \<open>The cells of a whole line; no cells when the line cannot be decoded.\<close>

definition cells_of :: "string \<Rightarrow> int list" where
  "cells_of l = (case line_cells l 0 of None \<Rightarrow> [] | Some vs \<Rightarrow> vs)"

text \<open>
  A list of lines fits a grid of width \<open>w\<close> when every line can be decoded and encodes at
  most \<open>w\<close> cells.
\<close>

definition lines_fit :: "int \<Rightarrow> string list \<Rightarrow> bool" where
  "lines_fit w ls = list_all (\<lambda>l. line_cells l 0 \<noteq> None \<and> int (length (cells_of l)) \<le> w) ls"

section \<open>Facts about neighbors and tick\<close>

lemma sdiv_nonneg: "0 \<le> a \<Longrightarrow> 0 < b \<Longrightarrow> (a::int) sdiv b = a div b"
  by (simp add: signed_divide_int_def sgn_if)

lemma smod_nonneg: "0 \<le> a \<Longrightarrow> 0 < b \<Longrightarrow> (a::int) smod b = a mod b"
  by (simp add: signed_modulo_int_def sgn_if)

lemma flat_bound:
  fixes r c w h :: int
  assumes "0 \<le> r" "r < h" "0 \<le> c" "c < w"
  shows "0 \<le> r * w + c \<and> r * w + c < w * h"
proof -
  have "r * w + c < (r + 1) * w" using assms by (simp add: algebra_simps)
  also have "\<dots> \<le> h * w" using assms by (intro mult_right_mono) auto
  finally have "r * w + c < w * h" by (simp add: mult.commute)
  moreover have "0 \<le> r * w" using assms by simp
  ultimately show ?thesis using assms by simp
qed

lemma pos_row_col:
  fixes pos w h :: int
  assumes "0 \<le> pos" "pos < w * h" "0 < w"
  shows "0 \<le> pos div w" "pos div w < h" "0 \<le> pos mod w" "pos mod w < w"
proof -
  show "0 \<le> pos div w" using assms by (simp add: pos_imp_zdiv_nonneg_iff)
  show "pos div w < h"
  proof (rule ccontr)
    assume "\<not> pos div w < h"
    then have "w * h \<le> w * (pos div w)" using assms by (intro mult_left_mono) auto
    also have "\<dots> \<le> pos"
      using mult_div_mod_eq[of w pos] pos_mod_sign[of w pos] assms by linarith
    finally show False using assms by simp
  qed
  show "0 \<le> pos mod w" "pos mod w < w" using assms by simp_all
qed

lemma sides_rc:
  assumes "0 \<le> r" "r < h" "0 \<le> c" "c < w"
  shows "sides w h (r * w + c) =
     [offset w h (r - 1) (c - 1), offset w h (r - 1) c, offset w h (r - 1) (c + 1),
      offset w h r (c + 1),
      offset w h (r + 1) (c + 1), offset w h (r + 1) c, offset w h (r + 1) (c - 1),
      offset w h r (c - 1)]"
proof -
  have d: "(r * w + c) sdiv w = r" "(r * w + c) smod w = c"
    using assms flat_bound[of r h c w] by (simp_all add: sdiv_nonneg smod_nonneg)
  show ?thesis
    unfolding sides_def d Let_def offset_def using assms by simp
qed

lemma offset_range: "0 < w \<Longrightarrow> offset w h r c = - 1 \<or> (0 \<le> offset w h r c \<and> offset w h r c < w * h)"
  using flat_bound[of r h c w] by (simp add: offset_def)

lemma rd_offset:
  assumes "int (length (grid s)) = gw s * gh s"
  shows "(if offset (gw s) (gh s) r c \<ge> 0 then rd (grid s) (offset (gw s) (gh s) r c) else Some 0)
         = Some (cell_at s r c)"
  using flat_bound[of r "gh s" c "gw s"] assms
  by (auto simp add: offset_def cell_at_def rd_def)

lemma sum_sides_step:
  assumes "int (length (grid s)) = gw s * gh s"
  shows "sum_sides (grid s) (offset (gw s) (gh s) r c # xs) n
         = sum_sides (grid s) xs (n + cell_at s r c)"
  using rd_offset[OF assms, of r c]
  by (auto split: if_splits)

lemma neighbors_rc:
  assumes "int (length (grid s)) = gw s * gh s"
      and "0 \<le> r" "r < gh s" "0 \<le> c" "c < gw s"
  shows "neighbors s (r * gw s + c) = Some (live_neighbors s r c)"
  unfolding neighbors_def sides_rc[OF assms(2-5)] sum_sides_step[OF assms(1)] live_neighbors_def
  by simp

lemma neighbors_pos:
  assumes "0 < gw s" "int (length (grid s)) = gw s * gh s" "0 \<le> pos" "pos < gw s * gh s"
  shows "neighbors s pos = Some (live_neighbors s (pos div gw s) (pos mod gw s))"
  using neighbors_rc[OF assms(2) pos_row_col[OF assms(3,4,1)]] by simp

lemma rd_Some: "0 \<le> i \<Longrightarrow> i < int (length a) \<Longrightarrow> rd a i = Some (a ! nat i)"
  by (simp add: rd_def)

lemma cell_at_diff_upd [simp]: "cell_at (s\<lparr>diff := d\<rparr>) = cell_at s"
  by (rule ext)+ (simp add: cell_at_def)

lemma live_neighbors_diff_upd [simp]: "live_neighbors (s\<lparr>diff := d\<rparr>) = live_neighbors s"
  by (rule ext)+ (simp add: live_neighbors_def)

lemma next_gen_diff_upd [simp]: "next_gen (s\<lparr>diff := d\<rparr>) = next_gen s"
  by (simp add: next_gen_def)

lemma length_next_gen [simp]: "length (next_gen s) = nat (gs s)"
  by (simp add: next_gen_def)

lemma next_gen_nth:
  "0 \<le> i \<Longrightarrow> i < gs s \<Longrightarrow>
   next_gen s ! nat i = rule (grid s ! nat i) (live_neighbors s (i div gw s) (i mod gw s))"
  by (simp add: next_gen_def)

lemma wr_Some: "0 \<le> i \<Longrightarrow> i < int (length a) \<Longrightarrow> wr a i v = Some (a[nat i := v])"
  by (simp add: wr_def)

lemma take_upd_drop:
  assumes "n < length xs" "n < length ys" "ys ! n = v"
  shows "take (Suc n) (xs[n := v]) @ drop (Suc n) ys = take n xs @ drop n ys"
proof -
  have "take (Suc n) (xs[n := v]) = take n xs @ [v]"
    using assms(1) by (simp add: take_Suc_conv_app_nth)
  moreover have "drop n ys = v # drop (Suc n) ys"
    using Cons_nth_drop_Suc[of n ys] assms(2,3) by simp
  ultimately show ?thesis by simp
qed

lemma tick_eval_from:
  assumes "k = nat (gs s - i)" "0 < gw s" "gw s * gh s = gs s"
      and "int (length (grid s)) = gs s" "int (length (diff s)) = gs s" "0 \<le> i" "i \<le> gs s"
  shows "tick_eval s i = Some (s\<lparr>diff := take (nat i) (diff s) @ drop (nat i) (next_gen s)\<rparr>)"
  using assms
proof (induction k arbitrary: s i)
  case 0
  then have "i = gs s" by simp
  with 0 show ?case by (subst tick_eval.simps) simp
next
  case (Suc k)
  then have lt: "i < gs s" by simp
  let ?n = "live_neighbors s (i div gw s) (i mod gw s)"
  let ?v = "rule (grid s ! nat i) ?n"
  let ?s' = "s\<lparr>diff := (diff s)[nat i := ?v]\<rparr>"
  have nb: "neighbors s i = Some ?n"
    using neighbors_pos[of s i] Suc.prems lt by simp
  have g: "rd (grid s) i = Some (grid s ! nat i)"
    using Suc.prems lt by (simp add: rd_Some)
  have w: "wr (diff s) i ?v = Some ((diff s)[nat i := ?v])"
    using Suc.prems lt by (simp add: wr_Some)
  have step: "tick_eval s i = tick_eval ?s' (i + 1)"
    using lt nb g w by (subst tick_eval.simps) simp
  have ih: "tick_eval ?s' (i + 1)
      = Some (?s'\<lparr>diff := take (nat (i + 1)) (diff ?s') @ drop (nat (i + 1)) (next_gen ?s')\<rparr>)"
    using Suc.prems lt by (intro Suc.IH) simp_all
  have n1: "nat (i + 1) = Suc (nat i)" using Suc.prems by simp
  have "take (Suc (nat i)) ((diff s)[nat i := ?v]) @ drop (Suc (nat i)) (next_gen s)
        = take (nat i) (diff s) @ drop (nat i) (next_gen s)"
    using Suc.prems lt next_gen_nth[of i s] by (intro take_upd_drop) simp_all
  then show ?case unfolding step ih n1 by simp
qed

lemma tick_eval_total:
  assumes "0 < gw s" "gw s * gh s = gs s"
      and "int (length (grid s)) = gs s" "int (length (diff s)) = gs s"
  shows "tick_eval s 0 = Some (s\<lparr>diff := next_gen s\<rparr>)"
proof -
  have "0 \<le> gs s" using assms(3) by linarith
  then show ?thesis using tick_eval_from[OF refl assms, of 0] by simp
qed

lemma take_keep_drop:
  assumes "n < length xs" "n < length ys" "xs ! n = ys ! n"
  shows "take (Suc n) xs @ drop (Suc n) ys = take n xs @ drop n ys"
  using take_upd_drop[OF assms(1,2) refl] assms(3) by (metis list_update_id)

lemma tick_commit_from:
  assumes "k = nat (gs s - i)"
      and "int (length (grid s)) = gs s" "int (length (diff s)) = gs s" "0 \<le> i" "i \<le> gs s"
  shows "tick_commit s i = Some (s\<lparr>grid := take (nat i) (grid s) @ drop (nat i) (diff s)\<rparr>)"
  using assms
proof (induction k arbitrary: s i)
  case 0
  then have "i = gs s" by simp
  with 0 show ?case by (subst tick_commit.simps) simp
next
  case (Suc k)
  then have lt: "i < gs s" by simp
  have n1: "nat (i + 1) = Suc (nat i)" using Suc.prems by simp
  have g: "rd (grid s) i = Some (grid s ! nat i)"
    using Suc.prems lt by (simp add: rd_Some)
  have d: "rd (diff s) i = Some (diff s ! nat i)"
    using Suc.prems lt by (simp add: rd_Some)
  show ?case
  proof (cases "grid s ! nat i = diff s ! nat i")
    case True
    have step: "tick_commit s i = tick_commit s (i + 1)"
      using lt g d True by (subst tick_commit.simps) simp
    have ih: "tick_commit s (i + 1)
        = Some (s\<lparr>grid := take (nat (i + 1)) (grid s) @ drop (nat (i + 1)) (diff s)\<rparr>)"
      using Suc.prems lt by (intro Suc.IH) simp_all
    have "take (Suc (nat i)) (grid s) @ drop (Suc (nat i)) (diff s)
          = take (nat i) (grid s) @ drop (nat i) (diff s)"
      using Suc.prems lt True by (intro take_keep_drop) simp_all
    then show ?thesis unfolding step ih n1 by simp
  next
    case False
    let ?s' = "s\<lparr>grid := (grid s)[nat i := diff s ! nat i]\<rparr>"
    have w: "wr (grid s) i (diff s ! nat i) = Some ((grid s)[nat i := diff s ! nat i])"
      using Suc.prems lt by (simp add: wr_Some)
    have step: "tick_commit s i = tick_commit ?s' (i + 1)"
      using lt g d w False by (subst tick_commit.simps) simp
    have ih: "tick_commit ?s' (i + 1)
        = Some (?s'\<lparr>grid := take (nat (i + 1)) (grid ?s') @ drop (nat (i + 1)) (diff ?s')\<rparr>)"
      using Suc.prems lt by (intro Suc.IH) simp_all
    have "take (Suc (nat i)) ((grid s)[nat i := diff s ! nat i]) @ drop (Suc (nat i)) (diff s)
          = take (nat i) (grid s) @ drop (nat i) (diff s)"
      using Suc.prems lt by (intro take_upd_drop) simp_all
    then show ?thesis unfolding step ih n1 by simp
  qed
qed

lemma tick_commit_total:
  assumes "int (length (grid s)) = gs s" "int (length (diff s)) = gs s"
  shows "tick_commit s 0 = Some (s\<lparr>grid := diff s\<rparr>)"
proof -
  have "0 \<le> gs s" using assms(1) by linarith
  then show ?thesis using tick_commit_from[OF refl assms, of 0] by simp
qed

lemma tick_wf:
  assumes "well_formed s"
  shows "tick s = Some (s\<lparr>grid := next_gen s, diff := next_gen s, generation := generation s + 1\<rparr>)"
proof -
  have e: "tick_eval s 0 = Some (s\<lparr>diff := next_gen s\<rparr>)"
    using assms by (intro tick_eval_total) (simp_all add: well_formed_def)
  have "int (length (grid s)) = gs s" using assms by (simp add: well_formed_def)
  then have c: "tick_commit (s\<lparr>diff := next_gen s\<rparr>) 0
             = Some (s\<lparr>diff := next_gen s, grid := next_gen s\<rparr>)"
    using tick_commit_total[of "s\<lparr>diff := next_gen s\<rparr>"] by simp
  show ?thesis by (simp add: tick_def e c)
qed

section \<open>One generation\<close>

lemma rule_spec: "rule g n = spec_next_state g n"
  by (simp add: rule_def spec_next_state_def)

lemma cell_at_next:
  assumes "well_formed s" "0 \<le> r" "r < gh s" "0 \<le> c" "c < gw s"
  shows "cell_at (s\<lparr>grid := next_gen s, diff := d, generation := g\<rparr>) r c
         = rule (cell_at s r c) (live_neighbors s r c)"
proof -
  have b: "0 \<le> r * gw s + c \<and> r * gw s + c < gw s * gh s"
    using flat_bound[of r "gh s" c "gw s"] assms by simp
  have d: "(r * gw s + c) div gw s = r" "(r * gw s + c) mod gw s = c"
    using assms by simp_all
  have "next_gen s ! nat (r * gw s + c) = rule (grid s ! nat (r * gw s + c)) (live_neighbors s r c)"
    using next_gen_nth[of "r * gw s + c" s] b assms(1) unfolding d by (simp add: well_formed_def)
  then show ?thesis using assms by (simp add: cell_at_def)
qed

lemma wf_blinker5x3: "well_formed blinker5x3"
  by (simp add: well_formed_def blinker5x3_def)

lemma sint_succ:
  fixes g :: "32 word"
  assumes "sint g < 2147483647"
  shows "sint (g + 1) = sint g + 1"
proof -
  have lo: "- (2 ^ 31) \<le> sint g" using sint_ge[of g] by simp
  have "sint (g + 1) = signed_take_bit 31 (sint g + 1)"
    by (simp add: sint_word_add)
  also have "\<dots> = sint g + 1"
    using lo assms by (intro signed_take_bit_int_eq_self) simp_all
  finally show ?thesis .
qed

text \<open>
  Claim C10. On a well-formed state \<open>tick\<close> returns a state whose current buffer equals
  its scratch buffer cell for cell, and the commit loop, which copies only the cells that
  differ, has the effect of copying the whole scratch buffer into the current one.
\<close>

theorem tick_commit_is_copy:
  assumes "well_formed s"
  shows "(\<exists>s'. tick s = Some s' \<and> grid s' = diff s')
       \<and> (\<exists>s1. tick_eval s 0 = Some s1 \<and> tick_commit s1 0 = Some (s1\<lparr>grid := diff s1\<rparr>))"
proof -
  have e: "tick_eval s 0 = Some (s\<lparr>diff := next_gen s\<rparr>)"
    using assms by (intro tick_eval_total) (simp_all add: well_formed_def)
  have "int (length (grid s)) = gs s" using assms by (simp add: well_formed_def)
  then have c: "tick_commit (s\<lparr>diff := next_gen s\<rparr>) 0
             = Some (s\<lparr>diff := next_gen s\<rparr>\<lparr>grid := diff (s\<lparr>diff := next_gen s\<rparr>)\<rparr>)"
    by (intro tick_commit_total) simp_all
  show ?thesis using tick_wf[OF assms] e c by simp
qed

theorem tick_commit_is_copy_witness:
  "well_formed blinker5x3 \<and> (\<exists>s'. tick blinker5x3 = Some s' \<and> grid s' = diff s')"
  using tick_commit_is_copy[OF wf_blinker5x3] wf_blinker5x3 by simp

text \<open>
  Claim C1. On a well-formed state \<open>tick\<close> performs one synchronous generation: every
  cell of the grid gets the state the rule of the specification gives for its state and
  its live-neighbour count before the call, both read from the buffer as it was before
  the call, and the generation counter is incremented by one (as a C \<open>int\<close>: the
  successor of its value whenever that is below \<open>INT_MAX\<close>).
\<close>

theorem tick_synchronous_generation:
  assumes "well_formed s"
  shows "\<exists>s'. tick s = Some s'
           \<and> gw s' = gw s \<and> gh s' = gh s
           \<and> (\<forall>r c. 0 \<le> r \<and> r < gh s \<and> 0 \<le> c \<and> c < gw s \<longrightarrow>
                  cell_at s' r c = spec_next_state (cell_at s r c) (live_neighbors s r c))
           \<and> generation s' = generation s + 1
           \<and> (sint (generation s) < 2147483647 \<longrightarrow>
                  sint (generation s') = sint (generation s) + 1)"
  using tick_wf[OF assms] cell_at_next[OF assms] sint_succ[of "generation s"]
  by (simp add: rule_spec)

theorem tick_synchronous_generation_witness:
  "well_formed blinker5x3 \<and> (\<exists>s'. tick blinker5x3 = Some s' \<and> cell_at s' 0 2 = 1 \<and> cell_at s' 1 1 = 0
      \<and> cell_at s' 1 2 = 1 \<and> sint (generation s') = 1)"
proof -
  obtain s' where t: "tick blinker5x3 = Some s'" "gw s' = gw blinker5x3" "gh s' = gh blinker5x3"
     and c: "\<forall>r c. 0 \<le> r \<and> r < gh blinker5x3 \<and> 0 \<le> c \<and> c < gw blinker5x3 \<longrightarrow>
                  cell_at s' r c = spec_next_state (cell_at blinker5x3 r c) (live_neighbors blinker5x3 r c)"
     and g: "generation s' = generation blinker5x3 + 1"
    using tick_synchronous_generation[OF wf_blinker5x3] by blast
  have "cell_at s' 0 2 = 1" "cell_at s' 1 1 = 0" "cell_at s' 1 2 = 1"
    using c by (simp_all add: blinker5x3_def spec_next_state_def live_neighbors_def cell_at_def)
  moreover have "sint (generation s') = 1" using g by (simp add: blinker5x3_def)
  ultimately show ?thesis using t wf_blinker5x3 by simp
qed

section \<open>The hard boundary of neighbors\<close>

lemma sides_pos:
  assumes "0 < w" "0 \<le> pos" "pos < w * h"
  shows "sides w h pos =
     [offset w h (pos div w - 1) (pos mod w - 1), offset w h (pos div w - 1) (pos mod w),
      offset w h (pos div w - 1) (pos mod w + 1),
      offset w h (pos div w) (pos mod w + 1),
      offset w h (pos div w + 1) (pos mod w + 1), offset w h (pos div w + 1) (pos mod w),
      offset w h (pos div w + 1) (pos mod w - 1),
      offset w h (pos div w) (pos mod w - 1)]"
  using sides_rc[OF pos_row_col[OF assms(2,3,1)]] by simp

lemma corner_sides:
  assumes "0 \<le> r" "r < h" "0 \<le> c" "c < w" "r = 0 \<or> r = h - 1" "c = 0 \<or> c = w - 1"
  shows "length (filter (\<lambda>x. 0 \<le> x)
     [offset w h (r - 1) (c - 1), offset w h (r - 1) c, offset w h (r - 1) (c + 1),
      offset w h r (c + 1),
      offset w h (r + 1) (c + 1), offset w h (r + 1) c, offset w h (r + 1) (c - 1),
      offset w h r (c - 1)]) \<le> 3"
proof -
  have up: "r = 0 \<Longrightarrow> offset w h (r - 1) c' = - 1" for c' by (simp add: offset_def)
  have dn: "r = h - 1 \<Longrightarrow> offset w h (r + 1) c' = - 1" for c' by (simp add: offset_def)
  have lf: "c = 0 \<Longrightarrow> offset w h r' (c - 1) = - 1" for r' by (simp add: offset_def)
  have rt: "c = w - 1 \<Longrightarrow> offset w h r' (c + 1) = - 1" for r' by (simp add: offset_def)
  consider "r = 0" "c = 0" | "r = 0" "c = w - 1" | "r = h - 1" "c = 0" | "r = h - 1" "c = w - 1"
    using assms(5,6) by blast
  then show ?thesis
  proof cases
    case 1 then show ?thesis using up lf by simp
  next
    case 2 then show ?thesis using up rt[OF 2(2)] by simp
  next
    case 3 then show ?thesis using dn[OF 3(1)] lf by simp
  next
    case 4 then show ?thesis using dn[OF 4(1)] rt[OF 4(2)] by simp
  qed
qed

text \<open>
  Claim C2. For every position \<open>pos\<close> inside a \<open>gw\<close> x \<open>gh\<close> grid, the array \<open>sides\<close> of
  \<open>neighbors\<close> holds, for each of the eight adjacent positions, its flat offset when it lies
  inside the grid and \<open>-1\<close> otherwise; every offset that is read lies in
  \<open>[0, gw * gh)\<close>, the call returns (no access leaves the buffer) the sum of the adjacent
  cells with every position off the grid counted as 0, and at a corner at most 3 entries
  of \<open>sides\<close> are read.
\<close>

theorem neighbors_hard_boundary:
  assumes "0 < gw s" "0 \<le> pos" "pos < gw s * gh s" "int (length (grid s)) = gw s * gh s"
  shows "sides (gw s) (gh s) pos =
           (let w = gw s; h = gh s; r = pos div w; c = pos mod w in
            [offset w h (r - 1) (c - 1), offset w h (r - 1) c, offset w h (r - 1) (c + 1),
             offset w h r (c + 1),
             offset w h (r + 1) (c + 1), offset w h (r + 1) c, offset w h (r + 1) (c - 1),
             offset w h r (c - 1)])
       \<and> (\<forall>x \<in> set (sides (gw s) (gh s) pos). x = - 1 \<or> (0 \<le> x \<and> x < gw s * gh s))
       \<and> neighbors s pos = Some (live_neighbors s (pos div gw s) (pos mod gw s))
       \<and> (((pos div gw s = 0 \<or> pos div gw s = gh s - 1)
            \<and> (pos mod gw s = 0 \<or> pos mod gw s = gw s - 1))
           \<longrightarrow> length (filter (\<lambda>x. 0 \<le> x) (sides (gw s) (gh s) pos)) \<le> 3)"
proof -
  note sp = sides_pos[OF assms(1-3)]
  have a: "\<forall>x \<in> set (sides (gw s) (gh s) pos). x = - 1 \<or> (0 \<le> x \<and> x < gw s * gh s)"
    unfolding sp using offset_range[OF assms(1)] by simp
  have b: "neighbors s pos = Some (live_neighbors s (pos div gw s) (pos mod gw s))"
    using neighbors_pos[OF assms(1,4,2,3)] .
  have c: "length (filter (\<lambda>x. 0 \<le> x) (sides (gw s) (gh s) pos)) \<le> 3"
    if "pos div gw s = 0 \<or> pos div gw s = gh s - 1" "pos mod gw s = 0 \<or> pos mod gw s = gw s - 1"
    unfolding sp using corner_sides[OF pos_row_col[OF assms(2,3,1)] that] .
  show ?thesis using sp a b c by (simp add: Let_def)
qed

theorem neighbors_hard_boundary_witness:
  "0 < gw blinker5x3 \<and> (0::int) \<le> 0 \<and> 0 < gw blinker5x3 * gh blinker5x3
   \<and> int (length (grid blinker5x3)) = gw blinker5x3 * gh blinker5x3
   \<and> sides 5 3 0 = [- 1, - 1, - 1, 1, 6, 5, - 1, - 1]
   \<and> neighbors blinker5x3 0 = Some 1"
proof -
  have h: "0 < gw blinker5x3" "(0::int) \<le> 0" "0 < gw blinker5x3 * gh blinker5x3"
    "int (length (grid blinker5x3)) = gw blinker5x3 * gh blinker5x3"
    by (simp_all add: blinker5x3_def)
  have "sides 5 3 0 = [- 1, - 1, - 1, 1, 6, 5, - 1, - 1]
      \<and> neighbors blinker5x3 0 = Some 1"
    using neighbors_hard_boundary[OF h]
    by (simp add: blinker5x3_def offset_def live_neighbors_def cell_at_def)
  then show ?thesis using h by simp
qed

section \<open>The blinker has period two\<close>

lemma rule_hcell:
  "rule (hcell r c a b)
     (hcell r c (a - 1) (b - 1) + hcell r c (a - 1) b + hcell r c (a - 1) (b + 1)
      + hcell r c a (b + 1)
      + hcell r c (a + 1) (b + 1) + hcell r c (a + 1) b + hcell r c (a + 1) (b - 1)
      + hcell r c a (b - 1))
   = vcell r c a b"
  unfolding hcell_def vcell_def rule_def by auto

lemma rule_vcell:
  "rule (vcell r c a b)
     (vcell r c (a - 1) (b - 1) + vcell r c (a - 1) b + vcell r c (a - 1) (b + 1)
      + vcell r c a (b + 1)
      + vcell r c (a + 1) (b + 1) + vcell r c (a + 1) b + vcell r c (a + 1) (b - 1)
      + vcell r c a (b - 1))
   = hcell r c a b"
  unfolding hcell_def vcell_def rule_def by auto

text \<open>A buffer given cell by cell by a function \<open>f\<close> of row and column that is dead off the grid.\<close>

lemma cell_at_tabulated:
  assumes "0 < gw s"
      and "grid s = map (\<lambda>i. f (int i div gw s) (int i mod gw s)) [0..<nat (gw s * gh s)]"
      and "\<And>a b. \<not> (0 \<le> a \<and> a < gh s \<and> 0 \<le> b \<and> b < gw s) \<Longrightarrow> f a b = 0"
  shows "cell_at s a b = f a b"
proof (cases "0 \<le> a \<and> a < gh s \<and> 0 \<le> b \<and> b < gw s")
  case True
  then have bd: "0 \<le> a * gw s + b \<and> a * gw s + b < gw s * gh s"
    using flat_bound[of a "gh s" b "gw s"] by simp
  have d: "(a * gw s + b) div gw s = a" "(a * gw s + b) mod gw s = b"
    using True assms(1) by simp_all
  have "grid s ! nat (a * gw s + b) = f a b"
    unfolding assms(2) using bd d by (simp add: nat_less_iff)
  then show ?thesis using True by (simp add: cell_at_def)
next
  case False
  then have "f a b = 0" by (rule assms(3))
  moreover have "cell_at s a b = 0" using False unfolding cell_at_def by (simp only: if_False)
  ultimately show ?thesis by simp
qed

lemma next_gen_tabulated:
  assumes "well_formed s"
      and "grid s = map (\<lambda>i. f (int i div gw s) (int i mod gw s)) [0..<nat (gw s * gh s)]"
      and "\<And>a b. \<not> (0 \<le> a \<and> a < gh s \<and> 0 \<le> b \<and> b < gw s) \<Longrightarrow> f a b = 0"
      and "\<And>a b. rule (f a b)
             (f (a - 1) (b - 1) + f (a - 1) b + f (a - 1) (b + 1) + f a (b + 1)
              + f (a + 1) (b + 1) + f (a + 1) b + f (a + 1) (b - 1) + f a (b - 1)) = g a b"
  shows "next_gen s = map (\<lambda>i. g (int i div gw s) (int i mod gw s)) [0..<nat (gw s * gh s)]"
proof -
  have w: "0 < gw s" and gs: "gw s * gh s = gs s" using assms(1) by (simp_all add: well_formed_def)
  have c: "cell_at s a b = f a b" for a b
    using cell_at_tabulated[OF w assms(2,3)] .
  have "rule (grid s ! i) (live_neighbors s (int i div gw s) (int i mod gw s))
        = g (int i div gw s) (int i mod gw s)" if "i < nat (gs s)" for i
  proof -
    have "grid s ! i = f (int i div gw s) (int i mod gw s)"
      using that unfolding gs[symmetric] by (subst assms(2)) simp
    then show ?thesis unfolding live_neighbors_def c using assms(4) by simp
  qed
  then show ?thesis unfolding next_gen_def gs by simp
qed

lemma hcell_off_grid:
  assumes "0 \<le> r" "r < h" "1 \<le> c" "c + 1 < w"
  shows "\<not> (0 \<le> a \<and> a < h \<and> 0 \<le> b \<and> b < w) \<Longrightarrow> hcell r c a b = 0"
  using assms by (auto simp: hcell_def)

lemma vcell_off_grid:
  assumes "1 \<le> r" "r + 1 < h" "0 \<le> c" "c < w"
  shows "\<not> (0 \<le> a \<and> a < h \<and> 0 \<le> b \<and> b < w) \<Longrightarrow> vcell r c a b = 0"
  using assms by (auto simp: vcell_def)

lemma wf_tick_result:
  assumes "well_formed s"
  shows "well_formed (s\<lparr>grid := next_gen s, diff := next_gen s, generation := g\<rparr>)"
  using assms by (simp add: well_formed_def)

text \<open>
  Claim C3. A well-formed state whose buffer is dead except for a horizontal line of three
  live cells centred on row \<open>r\<close>, column \<open>c\<close>, with the 8-neighbourhoods of the three cells
  inside the grid (\<open>1 \<le> r\<close>, \<open>r + 1 < gh\<close>, \<open>2 \<le> c\<close>, \<open>c + 2 < gw\<close>): one \<open>tick\<close> gives
  exactly the vertical line of three cells with the same centre, and a second \<open>tick\<close>
  gives the first buffer back.
\<close>

theorem blinker_period_two:
  assumes "well_formed s" "1 \<le> r" "r + 1 < gh s" "2 \<le> c" "c + 2 < gw s"
      and "grid s = hline (gw s) (gh s) r c"
  shows "\<exists>s1 s2. tick s = Some s1 \<and> grid s1 = vline (gw s) (gh s) r c
               \<and> tick s1 = Some s2 \<and> grid s2 = grid s"
proof -
  let ?s1 = "s\<lparr>grid := next_gen s, diff := next_gen s, generation := generation s + 1\<rparr>"
  let ?s2 = "?s1\<lparr>grid := next_gen ?s1, diff := next_gen ?s1, generation := generation ?s1 + 1\<rparr>"
  have t1: "tick s = Some ?s1" using tick_wf[OF assms(1)] .
  have wf1: "well_formed ?s1" using wf_tick_result[OF assms(1)] .
  have t2: "tick ?s1 = Some ?s2" using tick_wf[OF wf1] .
  have g1: "next_gen s = vline (gw s) (gh s) r c"
    unfolding vline_def
    using assms(2-5)
    by (intro next_gen_tabulated[OF assms(1) assms(6)[unfolded hline_def]] hcell_off_grid rule_hcell)
       simp_all
  have g1': "grid ?s1 = map (\<lambda>i. vcell r c (int i div gw ?s1) (int i mod gw ?s1))
                          [0..<nat (gw ?s1 * gh ?s1)]"
    using g1 by (simp add: vline_def)
  have g2: "next_gen ?s1 = map (\<lambda>i. hcell r c (int i div gw ?s1) (int i mod gw ?s1))
                          [0..<nat (gw ?s1 * gh ?s1)]"
    using assms(2-5)
    by (intro next_gen_tabulated[OF wf1 g1'] vcell_off_grid rule_vcell) simp_all
  have "grid ?s2 = grid s" using g2 assms(6) by (simp add: hline_def)
  moreover have "grid ?s1 = vline (gw s) (gh s) r c" using g1 by simp
  ultimately show ?thesis using t1 t2 by blast
qed

theorem blinker_period_two_witness:
  "well_formed blinker5x3 \<and> (1::int) \<le> 1 \<and> 1 + 1 < gh blinker5x3 \<and> (2::int) \<le> 2 \<and> 2 + 2 < gw blinker5x3
   \<and> grid blinker5x3 = hline (gw blinker5x3) (gh blinker5x3) 1 2
   \<and> (\<exists>s1 s2. tick blinker5x3 = Some s1 \<and> grid s1 = [0,0,1,0,0, 0,0,1,0,0, 0,0,1,0,0]
               \<and> tick s1 = Some s2 \<and> grid s2 = [0,0,0,0,0, 0,1,1,1,0, 0,0,0,0,0])"
proof -
  have h: "well_formed blinker5x3" "(1::int) \<le> 1" "1 + 1 < gh blinker5x3" "(2::int) \<le> 2"
          "2 + 2 < gw blinker5x3"
    by (simp_all add: well_formed_def blinker5x3_def)
  have g: "grid blinker5x3 = hline (gw blinker5x3) (gh blinker5x3) 1 2"
    by (simp add: blinker5x3_def hline_def hcell_def upt_rec)
  have v: "vline (gw blinker5x3) (gh blinker5x3) 1 2 = [0,0,1,0,0, 0,0,1,0,0, 0,0,1,0,0]"
    by (simp add: blinker5x3_def vline_def vcell_def upt_rec)
  have g': "grid blinker5x3 = [0,0,0,0,0, 0,1,1,1,0, 0,0,0,0,0]"
    by (simp add: blinker5x3_def)
  show ?thesis
    using blinker_period_two[OF h g] h g unfolding v g' by simp
qed

section \<open>Random seeding\<close>

lemma flat_inj:
  fixes a b a' b' w :: int
  assumes "0 \<le> b" "b < w" "0 \<le> b'" "b' < w" "a * w + b = a' * w + b'"
  shows "a = a' \<and> b = b'"
proof -
  have "a = (a * w + b) div w" using assms(1,2) by simp
  also have "\<dots> = (a' * w + b') div w" by (simp only: assms(5))
  also have "\<dots> = a'" using assms(3,4) by simp
  finally have "a = a'" .
  then show ?thesis using assms(5) by simp
qed

lemma nth_flat_upd:
  assumes "0 < gw s" "0 \<le> r" "r < gh s" "0 \<le> c" "c < gw s"
      and "0 \<le> a" "a < gh s" "0 \<le> b" "b < gw s" "int (length g) = gw s * gh s"
  shows "g[nat (r * gw s + c) := v] ! nat (a * gw s + b)
         = (if a = r \<and> b = c then v else g ! nat (a * gw s + b))"
proof -
  have b1: "0 \<le> r * gw s + c \<and> r * gw s + c < gw s * gh s"
    using flat_bound[of r "gh s" c "gw s"] assms by simp
  have b2: "0 \<le> a * gw s + b \<and> a * gw s + b < gw s * gh s"
    using flat_bound[of a "gh s" b "gw s"] assms by simp
  have "nat (r * gw s + c) = nat (a * gw s + b) \<longleftrightarrow> r * gw s + c = a * gw s + b"
    using b1 b2 by auto
  also have "\<dots> \<longleftrightarrow> a = r \<and> b = c"
    using flat_inj[of c "gw s" b r a] assms(4,5,8,9) by blast
  finally have "nat (r * gw s + c) = nat (a * gw s + b) \<longleftrightarrow> a = r \<and> b = c" .
  then show ?thesis using b1 assms(10) by (auto simp: nth_list_update)
qed

lemma gridrand_cols_from:
  assumes "n = nat (min w (gw s) - c)" "0 < gw s" "int (length (grid s)) = gw s * gh s"
      and "0 \<le> r" "r < gh s" "0 \<le> c"
  shows "\<exists>g. gridrand_cols rnd w s k r c = Some (g, k + nat (min w (gw s) - c))
            \<and> length g = length (grid s)
            \<and> (\<forall>a b. 0 \<le> a \<and> a < gh s \<and> 0 \<le> b \<and> b < gw s \<longrightarrow>
                 g ! nat (a * gw s + b)
                 = (if a = r \<and> c \<le> b \<and> b < w then rand_cell (rnd (k + nat (b - c)))
                    else grid s ! nat (a * gw s + b)))"
  using assms
proof (induction n arbitrary: s k c)
  case 0
  then have "\<not> (c < w \<and> c < gw s)" by auto
  then have "gridrand_cols rnd w s k r c = Some (grid s, k)"
    by (subst gridrand_cols.simps) auto
  moreover have "nat (min w (gw s) - c) = 0" using 0 by simp
  ultimately show ?case using \<open>\<not> (c < w \<and> c < gw s)\<close> by auto
next
  case (Suc n)
  then have lt: "c < w" "c < gw s" by auto
  let ?v = "rand_cell (rnd k)"
  let ?g1 = "(grid s)[nat (r * gw s + c) := ?v]"
  let ?s1 = "s\<lparr>grid := ?g1\<rparr>"
  have bd: "0 \<le> r * gw s + c \<and> r * gw s + c < gw s * gh s"
    using flat_bound[of r "gh s" c "gw s"] Suc.prems lt by simp
  have w: "wr (grid s) (r * gw s + c) ?v = Some ?g1"
    using bd Suc.prems by (simp add: wr_Some)
  have step: "gridrand_cols rnd w s k r c = gridrand_cols rnd w ?s1 (Suc k) r (c + 1)"
    using lt w by (subst gridrand_cols.simps) simp
  obtain g where g: "gridrand_cols rnd w ?s1 (Suc k) r (c + 1)
        = Some (g, Suc k + nat (min w (gw ?s1) - (c + 1)))"
      and len: "length g = length (grid ?s1)"
      and cells: "\<forall>a b. 0 \<le> a \<and> a < gh ?s1 \<and> 0 \<le> b \<and> b < gw ?s1 \<longrightarrow>
                 g ! nat (a * gw ?s1 + b)
                 = (if a = r \<and> c + 1 \<le> b \<and> b < w then rand_cell (rnd (Suc k + nat (b - (c + 1))))
                    else grid ?s1 ! nat (a * gw ?s1 + b))"
  proof -
    have p1: "n = nat (min w (gw ?s1) - (c + 1))" using Suc.prems(1) by simp
    have p2: "0 < gw ?s1" using Suc.prems(2) by simp
    have p3: "int (length (grid ?s1)) = gw ?s1 * gh ?s1" using Suc.prems(3) by simp
    have p4: "r < gh ?s1" using Suc.prems(5) by simp
    have p5: "0 \<le> c + 1" using Suc.prems(6) by simp
    from Suc.IH[OF p1 p2 p3 Suc.prems(4) p4 p5, of "Suc k"] that show thesis by blast
  qed
  have k: "Suc k + nat (min w (gw ?s1) - (c + 1)) = k + nat (min w (gw s) - c)"
    using lt by simp
  have "g ! nat (a * gw s + b)
        = (if a = r \<and> c \<le> b \<and> b < w then rand_cell (rnd (k + nat (b - c)))
           else grid s ! nat (a * gw s + b))"
    if ab: "0 \<le> a" "a < gh s" "0 \<le> b" "b < gw s" for a b
  proof -
    have u: "?g1 ! nat (a * gw s + b) = (if a = r \<and> b = c then ?v else grid s ! nat (a * gw s + b))"
      using nth_flat_upd[of s r c a b "grid s" ?v] Suc.prems lt ab by simp
    have c1: "g ! nat (a * gw s + b)
        = (if a = r \<and> c + 1 \<le> b \<and> b < w then rand_cell (rnd (Suc k + nat (b - (c + 1))))
           else ?g1 ! nat (a * gw s + b))"
      using cells ab by simp
    have e: "rand_cell (rnd (Suc k + nat (b - (c + 1)))) = rand_cell (rnd (k + nat (b - c)))"
      if "c + 1 \<le> b"
    proof -
      have "Suc k + nat (b - (c + 1)) = k + nat (b - c)" using that by linarith
      then show ?thesis by (simp only:)
    qed
    show ?thesis
    proof (cases "a = r \<and> c + 1 \<le> b \<and> b < w")
      case True
      then show ?thesis unfolding c1 using e by simp
    next
      case False
      then show ?thesis unfolding c1 u using lt by auto
    qed
  qed
  then show ?case unfolding step using g len k by simp
qed


lemma gridrand_rows_from:
  assumes "n = nat (min h (gh s) - r)" "0 < gw s" "int (length (grid s)) = gw s * gh s" "0 \<le> r"
  shows "\<exists>g. gridrand_rows rnd w h s k r
              = Some (s\<lparr>grid := g\<rparr>, k + nat (min h (gh s) - r) * nat (min w (gw s)))
            \<and> length g = length (grid s)
            \<and> (\<forall>a b. 0 \<le> a \<and> a < gh s \<and> 0 \<le> b \<and> b < gw s \<longrightarrow>
                 g ! nat (a * gw s + b)
                 = (if r \<le> a \<and> a < h \<and> b < w
                    then rand_cell (rnd (k + nat (a - r) * nat (min w (gw s)) + nat b))
                    else grid s ! nat (a * gw s + b)))"
  using assms
proof (induction n arbitrary: s k r)
  case 0
  then have nlt: "\<not> r < h \<or> \<not> r < gh s" by auto
  then have "gridrand_rows rnd w h s k r = Some (s, k)"
    by (subst gridrand_rows.simps) auto
  moreover have "nat (min h (gh s) - r) = 0" using 0 by simp
  moreover have "\<not> (r \<le> a \<and> a < h \<and> b < w)" if "a < gh s" for a b
    using nlt that by auto
  ultimately show ?case by (intro exI[of _ "grid s"]) (simp, blast)
next
  case (Suc n)
  then have lt: "r < h" "r < gh s" by auto
  let ?m = "nat (min w (gw s))"
  obtain g1 where c: "gridrand_cols rnd w s k r 0 = Some (g1, k + nat (min w (gw s) - 0))"
      and len1: "length g1 = length (grid s)"
      and cells1: "\<forall>a b. 0 \<le> a \<and> a < gh s \<and> 0 \<le> b \<and> b < gw s \<longrightarrow>
                 g1 ! nat (a * gw s + b)
                 = (if a = r \<and> 0 \<le> b \<and> b < w then rand_cell (rnd (k + nat (b - 0)))
                    else grid s ! nat (a * gw s + b))"
    using gridrand_cols_from[where c = 0 and w = w and rnd = rnd and k = k,
        OF refl Suc.prems(2,3,4) lt(2) order_refl] by blast
  let ?s1 = "s\<lparr>grid := g1\<rparr>"
  have step: "gridrand_rows rnd w h s k r = gridrand_rows rnd w h ?s1 (k + ?m) (r + 1)"
    using lt c by (subst gridrand_rows.simps) simp
  obtain g where g: "gridrand_rows rnd w h ?s1 (k + ?m) (r + 1)
        = Some (?s1\<lparr>grid := g\<rparr>, k + ?m + nat (min h (gh ?s1) - (r + 1)) * nat (min w (gw ?s1)))"
      and len: "length g = length (grid ?s1)"
      and cells: "\<forall>a b. 0 \<le> a \<and> a < gh ?s1 \<and> 0 \<le> b \<and> b < gw ?s1 \<longrightarrow>
                 g ! nat (a * gw ?s1 + b)
                 = (if r + 1 \<le> a \<and> a < h \<and> b < w
                    then rand_cell (rnd (k + ?m + nat (a - (r + 1)) * nat (min w (gw ?s1)) + nat b))
                    else grid ?s1 ! nat (a * gw ?s1 + b))"
  proof -
    have p1: "n = nat (min h (gh ?s1) - (r + 1))" using Suc.prems(1) by simp
    have p2: "0 < gw ?s1" using Suc.prems(2) by simp
    have p3: "int (length (grid ?s1)) = gw ?s1 * gh ?s1" using Suc.prems(3) len1 by simp
    have p4: "0 \<le> r + 1" using Suc.prems(4) by simp
    from Suc.IH[OF p1 p2 p3 p4, of "k + ?m"] that show thesis by blast
  qed
  have k: "k + ?m + nat (min h (gh ?s1) - (r + 1)) * nat (min w (gw ?s1))
           = k + nat (min h (gh s) - r) * ?m"
  proof -
    have "nat (min h (gh s) - r) = Suc (nat (min h (gh s) - (r + 1)))" using lt by linarith
    then show ?thesis by simp
  qed
  have "g ! nat (a * gw s + b)
        = (if r \<le> a \<and> a < h \<and> b < w
           then rand_cell (rnd (k + nat (a - r) * ?m + nat b))
           else grid s ! nat (a * gw s + b))"
    if ab: "0 \<le> a" "a < gh s" "0 \<le> b" "b < gw s" for a b
  proof -
    have u: "g1 ! nat (a * gw s + b)
        = (if a = r \<and> b < w then rand_cell (rnd (k + nat b)) else grid s ! nat (a * gw s + b))"
      using cells1 ab by simp
    have c1: "g ! nat (a * gw s + b)
        = (if r + 1 \<le> a \<and> a < h \<and> b < w
           then rand_cell (rnd (k + ?m + nat (a - (r + 1)) * ?m + nat b))
           else g1 ! nat (a * gw s + b))"
      using cells ab by simp
    show ?thesis
    proof (cases "r + 1 \<le> a \<and> a < h \<and> b < w")
      case True
      then have "nat (a - r) = Suc (nat (a - (r + 1)))" by linarith
      then have eq: "k + ?m + nat (a - (r + 1)) * ?m + nat b = k + nat (a - r) * ?m + nat b"
        by simp
      have "g ! nat (a * gw s + b) = rand_cell (rnd (k + ?m + nat (a - (r + 1)) * ?m + nat b))"
        using c1 by (simp only: True if_True simp_thms)
      also have "\<dots> = rand_cell (rnd (k + nat (a - r) * ?m + nat b))"
        by (simp only: eq)
      finally show ?thesis using True by simp
    next
      case False
      then show ?thesis unfolding c1 u using lt by auto
    qed
  qed
  then have cells': "\<forall>a b. 0 \<le> a \<and> a < gh s \<and> 0 \<le> b \<and> b < gw s \<longrightarrow>
                 g ! nat (a * gw s + b)
                 = (if r \<le> a \<and> a < h \<and> b < w
                    then rand_cell (rnd (k + nat (a - r) * nat (min w (gw s)) + nat b))
                    else grid s ! nat (a * gw s + b))"
    by blast
  have run: "gridrand_rows rnd w h s k r
             = Some (s\<lparr>grid := g\<rparr>, k + nat (min h (gh s) - r) * nat (min w (gw s)))"
    using step g k by simp
  have len': "length g = length (grid s)" using len len1 by simp
  from run len' cells' show ?case by blast
qed

lemma smod4: "(v::int) smod 4 = 0 \<longleftrightarrow> 4 dvd v"
proof -
  have "v smod 4 = sgn v * (\<bar>v\<bar> mod 4)" by (simp add: signed_modulo_int_def)
  then have "v smod 4 = 0 \<longleftrightarrow> v = 0 \<or> \<bar>v\<bar> mod 4 = 0" by (simp add: sgn_if)
  also have "\<dots> \<longleftrightarrow> \<bar>v\<bar> mod 4 = 0" by auto
  also have "\<dots> \<longleftrightarrow> 4 dvd \<bar>v\<bar>" by (simp add: dvd_eq_mod_eq_0)
  also have "\<dots> \<longleftrightarrow> 4 dvd v" by simp
  finally show ?thesis .
qed

text \<open>
  Claim C5. \<open>main\<close> seeds with \<open>gridrand(cols, rows)\<close>. On a well-formed state the call
  returns, and in the resulting grid a cell at row \<open>r\<close>, column \<open>c\<close> with
  \<open>r < min rows gh\<close> and \<open>c < min cols gw\<close> is alive exactly when its draw of \<open>random()\<close>
  (the draws are made row by row) is divisible by 4, and every other cell keeps the state
  it had, dead on the zero-initialised grid.
\<close>

theorem gridrand_viewport_only:
  assumes "well_formed s"
  shows "\<exists>s' k'. gridrand rnd (cols s) (rows s) s k = Some (s', k')
           \<and> gw s' = gw s \<and> gh s' = gh s
           \<and> (\<forall>r c. 0 \<le> r \<and> r < gh s \<and> 0 \<le> c \<and> c < gw s \<longrightarrow>
                 cell_at s' r c
                 = (if r < min (rows s) (gh s) \<and> c < min (cols s) (gw s)
                    then (if 4 dvd rnd (k + nat r * nat (min (cols s) (gw s)) + nat c) then 1 else 0)
                    else cell_at s r c))"
proof -
  have w: "0 < gw s" and len: "int (length (grid s)) = gw s * gh s"
    using assms by (simp_all add: well_formed_def)
  obtain g where g: "gridrand_rows rnd (cols s) (rows s) s k 0
              = Some (s\<lparr>grid := g\<rparr>, k + nat (min (rows s) (gh s) - 0) * nat (min (cols s) (gw s)))"
      and cells: "\<forall>a b. 0 \<le> a \<and> a < gh s \<and> 0 \<le> b \<and> b < gw s \<longrightarrow>
                 g ! nat (a * gw s + b)
                 = (if 0 \<le> a \<and> a < rows s \<and> b < cols s
                    then rand_cell (rnd (k + nat (a - 0) * nat (min (cols s) (gw s)) + nat b))
                    else grid s ! nat (a * gw s + b))"
    using gridrand_rows_from[where r = 0 and h = "rows s" and w = "cols s" and rnd = rnd and k = k,
        OF refl w len order_refl] by blast
  have rc: "rand_cell v = (if 4 dvd v then 1 else 0)" for v
    by (simp add: rand_cell_def smod4)
  let ?s' = "s\<lparr>grid := g\<rparr>"
  have run: "gridrand rnd (cols s) (rows s) s k
             = Some (?s', k + nat (min (rows s) (gh s) - 0) * nat (min (cols s) (gw s)))"
    using g by (simp only: gridrand_def)
  have "cell_at ?s' r c
        = (if r < min (rows s) (gh s) \<and> c < min (cols s) (gw s)
           then (if 4 dvd rnd (k + nat r * nat (min (cols s) (gw s)) + nat c) then 1 else 0)
           else cell_at s r c)"
    if rc_in: "0 \<le> r \<and> r < gh s \<and> 0 \<le> c \<and> c < gw s" for r c
  proof -
    have "cell_at ?s' r c = g ! nat (r * gw s + c)"
      using rc_in by (simp add: cell_at_def)
    also have "\<dots> = (if 0 \<le> r \<and> r < rows s \<and> c < cols s
                    then rand_cell (rnd (k + nat (r - 0) * nat (min (cols s) (gw s)) + nat c))
                    else grid s ! nat (r * gw s + c))"
      using cells rc_in by blast
    also have "\<dots> = (if r < min (rows s) (gh s) \<and> c < min (cols s) (gw s)
           then (if 4 dvd rnd (k + nat r * nat (min (cols s) (gw s)) + nat c) then 1 else 0)
           else cell_at s r c)"
      using rc_in by (simp add: rc cell_at_def)
    finally show ?thesis .
  qed
  then show ?thesis using run by (intro exI[of _ ?s'] exI conjI) simp_all
qed


theorem gridrand_viewport_only_witness:
  "well_formed dead3x3 \<and>
   (\<exists>s' k'. gridrand (\<lambda>k. 2 * int k) (cols dead3x3) (rows dead3x3) dead3x3 0 = Some (s', k')
       \<and> cell_at s' 0 0 = 1 \<and> cell_at s' 0 1 = 0 \<and> cell_at s' 0 2 = 0
       \<and> cell_at s' 1 0 = 1 \<and> cell_at s' 1 1 = 0 \<and> cell_at s' 2 0 = 0)"
proof -
  have h: "well_formed dead3x3" by (simp add: well_formed_def dead3x3_def)
  obtain s' k' where
    run: "gridrand (\<lambda>k. 2 * int k) (cols dead3x3) (rows dead3x3) dead3x3 0 = Some (s', k')"
    and cells: "\<forall>r c. 0 \<le> r \<and> r < gh dead3x3 \<and> 0 \<le> c \<and> c < gw dead3x3 \<longrightarrow>
                 cell_at s' r c
                 = (if r < min (rows dead3x3) (gh dead3x3) \<and> c < min (cols dead3x3) (gw dead3x3)
                    then (if 4 dvd 2 * int (0 + nat r * nat (min (cols dead3x3) (gw dead3x3)) + nat c)
                          then 1 else 0)
                    else cell_at dead3x3 r c)"
    using gridrand_viewport_only[OF h, of "\<lambda>k. 2 * int k" 0] by blast
  have "cell_at s' 0 0 = 1" "cell_at s' 0 1 = 0" "cell_at s' 0 2 = 0"
       "cell_at s' 1 0 = 1" "cell_at s' 1 1 = 0" "cell_at s' 2 0 = 0"
    using cells by (simp_all add: dead3x3_def cell_at_def)
  then show ?thesis using h run by simp
qed

section \<open>The header of draw\<close>

lemma wf_fresh256: "well_formed fresh256"
  by (simp add: well_formed_def fresh256_def)

lemma draw_cols_from:
  assumes "n = nat (min (cols s) (gw s) - c)" "0 < gw s" "int (length (grid s)) = gw s * gh s"
      and "0 \<le> r" "r < gh s" "0 \<le> c"
  shows "\<exists>t. draw_cols s r c out = Some (out @ t)"
  using assms
proof (induction n arbitrary: c out)
  case 0
  then have "\<not> c < cols s \<or> \<not> c < gw s" by auto
  then have "draw_cols s r c out = Some out" by (subst draw_cols.simps) auto
  then show ?case by simp
next
  case (Suc n)
  then have lt: "c < cols s" "c < gw s" by auto
  have bd: "0 \<le> r * gw s + c \<and> r * gw s + c < gw s * gh s"
    using flat_bound[of r "gh s" c "gw s"] Suc.prems lt by simp
  let ?o = "out @ mvprintf (1 + c) (2 + r) (glyph (grid s ! nat (r * gw s + c)))"
  have step: "draw_cols s r c out = draw_cols s r (c + 1) ?o"
    using lt bd Suc.prems(3) by (subst draw_cols.simps) (simp add: rd_Some)
  have p1: "n = nat (min (cols s) (gw s) - (c + 1))" using Suc.prems(1) by simp
  have p6: "0 \<le> c + 1" using Suc.prems(6) by simp
  from Suc.IH[OF p1 Suc.prems(2,3,4,5) p6, of ?o]
  obtain t where "draw_cols s r (c + 1) ?o = Some (?o @ t)" by blast
  then show ?case unfolding step by simp
qed

lemma draw_rows_from:
  assumes "n = nat (min (rows s - 1) (gh s) - r)" "0 < gw s"
      and "int (length (grid s)) = gw s * gh s" "0 \<le> r"
  shows "\<exists>t. draw_rows s r out = Some (out @ t)"
  using assms
proof (induction n arbitrary: r out)
  case 0
  then have "\<not> r < rows s - 1 \<or> \<not> r < gh s" by auto
  then have "draw_rows s r out = Some out" by (subst draw_rows.simps) auto
  then show ?case by simp
next
  case (Suc n)
  then have lt: "r < rows s - 1" "r < gh s" by auto
  obtain t1 where c: "draw_cols s r 0 out = Some (out @ t1)"
    using draw_cols_from[OF refl Suc.prems(2,3,4) lt(2) order_refl] by blast
  have step: "draw_rows s r out = draw_rows s (r + 1) (out @ t1)"
    using lt c by (subst draw_rows.simps) simp
  have p1: "n = nat (min (rows s - 1) (gh s) - (r + 1))" using Suc.prems(1) by simp
  have p4: "0 \<le> r + 1" using Suc.prems(4) by simp
  from Suc.IH[OF p1 Suc.prems(2,3) p4, of "out @ t1"]
  obtain t where "draw_rows s (r + 1) (out @ t1) = Some ((out @ t1) @ t)" by blast
  then show ?case unfolding step by simp
qed

lemma draw_prefix:
  assumes "well_formed s"
  shows "\<exists>rest. draw s
           = Some (CURSOFF @ mvprintf 1 1 (header_text (generation s) (rows s) (cols s)) @ rest)"
proof -
  have w: "0 < gw s" and len: "int (length (grid s)) = gw s * gh s"
    using assms by (simp_all add: well_formed_def)
  let ?h = "CURSOFF @ mvprintf 1 1 (header_text (generation s) (rows s) (cols s))"
  obtain t where "draw_rows s 0 ?h = Some (?h @ t)"
    using draw_rows_from[OF refl w len order_refl] by blast
  then show ?thesis by (simp add: draw_def)
qed

lemma starts_with_append: "starts_with p (Some (p @ rest))"
  by (simp add: starts_with_def)

text \<open>
  Claim C7, amended. On a well-formed state \<open>draw\<close> returns, and its output starts, after
  hiding the cursor, with a header at line 1, column 1 that shows the generation number
  and the dimensions of the viewport, terminal rows by terminal columns (not the
  dimensions of the grid), followed by the sequence that clears the rest of the line.
\<close>

theorem draw_header_viewport:
  assumes "well_formed s"
  shows "starts_with
           (CURSOFF @ CURPOS 1 1
            @ ''Conway'' @ [CHR 0x27] @ ''s Game of Life'' @ dot_sep
            @ ''#'' @ show_int (sint (generation s)) @ dot_sep
            @ show_int (rows s) @ ''x'' @ show_int (cols s) @ CLEARRIGHT)
           (draw s)"
proof -
  obtain rest where "draw s
      = Some (CURSOFF @ mvprintf 1 1 (header_text (generation s) (rows s) (cols s)) @ rest)"
    using draw_prefix[OF assms] by blast
  then show ?thesis
    using starts_with_append[of "CURSOFF @ mvprintf 1 1 (header_text (generation s) (rows s) (cols s))" rest]
    by (simp add: mvprintf_def header_text_def)
qed

theorem draw_header_viewport_witness:
  "well_formed fresh256 \<and>
   starts_with
     (CURSOFF @ CURPOS 1 1
      @ ''Conway'' @ [CHR 0x27] @ ''s Game of Life'' @ dot_sep
      @ ''#0'' @ dot_sep @ ''24x80'' @ CLEARRIGHT)
     (draw fresh256)"
proof -
  have s: "show_int (sint (generation fresh256)) = ''0''" "show_int (rows fresh256) = ''24''"
          "show_int (cols fresh256) = ''80''"
    by (simp_all add: fresh256_def show_int_def show_nat.simps digit_def)
  show ?thesis
    using draw_header_viewport[OF wf_fresh256] wf_fresh256 unfolding s by simp
qed

text \<open>
  Claim C7 as stated fails: on the default 256 x 256 grid under an 80 x 24 terminal the
  output of \<open>draw\<close> does not start with a header that shows the dimensions of the grid
  (it reads \<open>24x80\<close>, not \<open>256x256\<close>).
\<close>

theorem draw_header_not_grid_dimensions:
  "\<not> starts_with (CURSOFF @ spec_header fresh256) (draw fresh256)"
proof -
  obtain r2 where b: "draw fresh256
           = Some (CURSOFF @ mvprintf 1 1 (header_text (generation fresh256) (rows fresh256)
                      (cols fresh256)) @ r2)"
    using draw_prefix[OF wf_fresh256] by blast
  have s: "show_int (rows fresh256) = ''24''" "show_int (cols fresh256) = ''80''"
          "show_int (gw fresh256) = ''256''" "show_int (gh fresh256) = ''256''"
          "show_int (sint (generation fresh256)) = ''0''" "show_int 1 = ''1''"
    by (simp_all add: fresh256_def show_int_def show_nat.simps digit_def)
  show ?thesis
    unfolding b
    by (simp add: starts_with_def spec_header_def mvprintf_def header_text_def s CURSOFF_def
        CURPOS_def dot_sep_def CLEARRIGHT_def)
qed

section \<open>Facts about startup and the main loop\<close>

lemma startup_env_tty: "startup env_tty = Inr fresh256"
  by (simp add: startup_def env_tty_def globals0_def ecalloc_def fresh256_def)

lemma startup_ok:
  assumes "calloc_grid_ok e" "calloc_diff_ok e"
  shows "startup e = Inr \<lparr>gw = 256, gh = 256, gs = 65536,
           grid = replicate 65536 0, diff = replicate 65536 0,
           rows = uint (ws_row e), cols = uint (ws_col e), generation = 0\<rparr>"
  using assms by (simp add: startup_def globals0_def ecalloc_def)

lemma tick_keeps_well_formed:
  assumes "well_formed s"
  shows "\<exists>s'. tick s = Some s' \<and> well_formed s'"
  using tick_wf[OF assms] wf_tick_result[OF assms] by simp

lemma draw_returns:
  assumes "well_formed s"
  shows "\<exists>out. draw s = Some out"
  using draw_prefix[OF assms] by blast

lemma budget_step:
  fixes t :: "32 word"
  shows "(\<exists>j. 1 \<le> j \<and> j \<le> Suc n \<and> t = of_nat j)
         \<longleftrightarrow> t - 1 = 0 \<or> (\<exists>j. 1 \<le> j \<and> j \<le> n \<and> t - 1 = of_nat j)"
proof
  assume "\<exists>j. 1 \<le> j \<and> j \<le> Suc n \<and> t = of_nat j"
  then obtain j where j: "1 \<le> j" "j \<le> Suc n" "t = of_nat j" by blast
  show "t - 1 = 0 \<or> (\<exists>j. 1 \<le> j \<and> j \<le> n \<and> t - 1 = of_nat j)"
  proof (cases "j = 1")
    case True
    then show ?thesis using j by simp
  next
    case False
    then obtain i where i: "j = Suc i" "1 \<le> i" "i \<le> n" using j by (cases j) auto
    then have "t - 1 = of_nat i" using j(3) by simp
    then show ?thesis using i by blast
  qed
next
  assume "t - 1 = 0 \<or> (\<exists>j. 1 \<le> j \<and> j \<le> n \<and> t - 1 = of_nat j)"
  then show "\<exists>j. 1 \<le> j \<and> j \<le> Suc n \<and> t = of_nat j"
  proof
    assume "t - 1 = 0"
    then have "t = of_nat 1" by simp
    then show ?thesis by (intro exI[of _ 1]) simp
  next
    assume "\<exists>j. 1 \<le> j \<and> j \<le> n \<and> t - 1 = of_nat j"
    then obtain i where i: "1 \<le> i" "i \<le> n" "t - 1 = of_nat i" by blast
    then have "t = of_nat (Suc i)" by (simp add: algebra_simps)
    then show ?thesis using i by (intro exI[of _ "Suc i"]) simp
  qed
qed

lemma run_ticks:
  assumes "well_formed s"
  shows "run n t s
         = (if \<exists>j. 1 \<le> j \<and> j \<le> n \<and> t = of_nat j then Some (Exited 0) else None)"
  using assms
proof (induction n arbitrary: t s)
  case 0
  then show ?case by simp
next
  case (Suc n)
  obtain out where d: "draw s = Some out" using draw_returns[OF Suc.prems] by blast
  obtain s' where t: "tick s = Some s'" and w: "well_formed s'"
    using tick_keeps_well_formed[OF Suc.prems] by blast
  have "run (Suc n) t s = (if t - 1 = 0 then Some (Exited 0) else run n (t - 1) s')"
    using d t by simp
  also have "\<dots> = (if t - 1 = 0 \<or> (\<exists>j. 1 \<le> j \<and> j \<le> n \<and> t - 1 = of_nat j)
                    then Some (Exited 0) else None)"
    unfolding Suc.IH[OF w] by auto
  finally show ?case unfolding budget_step[of n t] .
qed

lemma no_budget_wraps:
  "(\<exists>j. 1 \<le> j \<and> j \<le> n \<and> (0 :: 32 word) = of_nat j) \<longleftrightarrow> 2 ^ 32 \<le> n"
proof
  assume "\<exists>j. 1 \<le> j \<and> j \<le> n \<and> (0 :: 32 word) = of_nat j"
  then obtain j where j: "1 \<le> j" "j \<le> n" "(of_nat j :: 32 word) = 0" by auto
  then have "2 ^ 32 dvd j" by (simp add: word_of_nat_eq_0_iff)
  then have "2 ^ 32 \<le> j" using j(1) by (intro dvd_imp_le) simp_all
  then show "2 ^ 32 \<le> n" using j(2) by simp
next
  assume "2 ^ 32 \<le> n"
  moreover have "(0 :: 32 word) = of_nat (2 ^ 32)" by simp
  ultimately show "\<exists>j. 1 \<le> j \<and> j \<le> n \<and> (0 :: 32 word) = of_nat j"
    by (intro exI[of _ "2 ^ 32"]) simp
qed

lemma run_no_budget:
  assumes "well_formed s"
  shows "run n 0 s = (if 2 ^ 32 \<le> n then Some (Exited 0) else None)"
  unfolding run_ticks[OF assms] no_budget_wraps by simp

lemma gridfile_empty: "gridfile (Some []) s = Some (0, s)"
  by (simp add: gridfile_def getlines_def)

lemma warmup_zero: "warmup 0 s = Some s"
  by (subst warmup.simps) simp

lemma main_empty_file:
  "main env_tty [] [''empty.txt''] n = run n 0 fresh256"
proof -
  have f: "fopen env_tty ''empty.txt'' = Some []" by (simp add: env_tty_def)
  show ?thesis
    by (simp add: main_def startup_env_tty populate_def f gridfile_empty warmup_zero)
qed

text \<open>
  Claim C6 says that without a tick budget (\<open>ticks = 0\<close>, no option \<open>-n\<close>) the main loop
  is still running after any number of cycles. \<open>ticks\<close> is a C \<open>int\<close>: each cycle
  decrements it and leaves the loop when it reaches 0. Started without options on an
  empty pattern file, the loop is still running after \<open>2^32 - 1\<close> cycles, and the next
  cycle brings the counter back to 0: the loop ends and \<open>main\<close> returns 0.
\<close>

theorem main_unbounded_loop_wraps:
  "main env_tty [] [''empty.txt''] (2 ^ 32 - 1) = None
   \<and> main env_tty [] [''empty.txt''] (2 ^ 32) = Some (Exited 0)"
  unfolding main_empty_file run_no_budget[OF wf_fresh256] by simp


lemma parse_opts_exit:
  "parse_opts os cf = Inl out \<Longrightarrow> out = Exited 0"
proof (induction os arbitrary: cf)
  case Nil
  then show ?case by simp
next
  case (Cons o1 os)
  obtain ch a where o1: "o1 = (ch, a)" by (cases o1)
  show ?case
    using Cons.prems Cons.IH unfolding o1
    by (auto simp: usage_def die_def split: if_splits option.splits)
qed

lemma startup_exit: "startup e = Inl out \<Longrightarrow> out = Exited 0"
  by (auto simp: startup_def ecalloc_def die_def Let_def split: if_splits)

lemma populate_exit: "populate e rest s = Inl out \<Longrightarrow> out = Exited 0 \<or> out = Fault"
  by (auto simp: populate_def die_def split: list.splits option.splits if_splits prod.splits)

lemma run_exit: "run n t s = Some out \<Longrightarrow> out = Exited 0 \<or> out = Fault"
proof (induction n arbitrary: t s)
  case 0
  then show ?case by simp
next
  case (Suc n)
  then show ?case by (auto split: option.splits if_splits)
qed

text \<open>
  Claim C8. Whenever \<open>main\<close> ends through \<open>exit\<close> or its \<open>return\<close>, the status is 0:
  for every environment, every command line and every number of cycles followed.
\<close>

theorem main_exit_status_zero:
  assumes "main e opts rest n = Some (Exited c)"
  shows "c = 0"
proof -
  have "Exited c = Exited 0 \<or> Exited c = Fault"
    using assms parse_opts_exit startup_exit populate_exit run_exit
    unfolding main_def
    by (fastforce split: sum.splits option.splits)
  then show ?thesis by simp
qed

lemma budget_three: "\<exists>j. 1 \<le> j \<and> j \<le> (3::nat) \<and> (3 :: 32 word) = of_nat j"
  by (intro exI[of _ 3]) simp

theorem main_exit_status_zero_witness:
  "main env_tty [(CHR ''v'', None)] [] 0 = Some (Exited 0)
   \<and> main env_tty [(CHR ''x'', None)] [] 0 = Some (Exited 0)
   \<and> main env_tty [(CHR ''n'', None)] [] 0 = Some (Exited 0)
   \<and> main (env_tty\<lparr>calloc_grid_ok := False\<rparr>) [] [] 0 = Some (Exited 0)
   \<and> main (env_tty\<lparr>calloc_diff_ok := False\<rparr>) [] [] 0 = Some (Exited 0)
   \<and> main env_tty [] [''missing.txt''] 0 = Some (Exited 0)
   \<and> main env_tty [(CHR ''n'', Some ''3'')] [''empty.txt''] 3 = Some (Exited 0)
   \<and> (0::int) = 0"
proof -
  have v: "main env_tty [(CHR ''v'', None)] [] 0 = Some (Exited 0)"
    by (simp add: main_def die_def)
  have x: "main env_tty [(CHR ''x'', None)] [] 0 = Some (Exited 0)"
    by (simp add: main_def usage_def die_def)
  have n: "main env_tty [(CHR ''n'', None)] [] 0 = Some (Exited 0)"
    by (simp add: main_def usage_def die_def)
  have m1: "main (env_tty\<lparr>calloc_grid_ok := False\<rparr>) [] [] 0 = Some (Exited 0)"
    by (simp add: main_def startup_def ecalloc_def die_def env_tty_def globals0_def)
  have m2: "main (env_tty\<lparr>calloc_diff_ok := False\<rparr>) [] [] 0 = Some (Exited 0)"
    by (simp add: main_def startup_def ecalloc_def die_def env_tty_def globals0_def)
  have f0: "fopen env_tty ''missing.txt'' = None" by (simp add: env_tty_def)
  have f: "main env_tty [] [''missing.txt''] 0 = Some (Exited 0)"
    by (simp add: main_def startup_env_tty populate_def f0 gridfile_def die_def)
  have f1: "fopen env_tty ''empty.txt'' = Some []" by (simp add: env_tty_def)
  have a3: "atoi ''3'' = 3" by (simp add: atoi_def isspace_def isdigit_def)
  have b: "main env_tty [(CHR ''n'', Some ''3'')] [''empty.txt''] 3 = Some (Exited 0)"
    using budget_three
    by (simp add: main_def a3 startup_env_tty populate_def f1 gridfile_empty warmup_zero
        run_ticks[OF wf_fresh256])
  from v x n m1 m2 f b main_exit_status_zero[OF b] show ?thesis by simp
qed

text \<open>
  Claim C9. When both calls of \<open>calloc\<close> succeed, \<open>main\<close> reaches the initial population
  with a 256 x 256 grid and two buffers, \<open>grid\<close> and \<open>diff\<close>, of \<open>gw * gh\<close> zeroed cells
  each, so that every cell is dead. (The size is computed as \<open>gw * gw\<close>; the two
  dimensions are always 256.)
\<close>

theorem startup_two_zeroed_buffers:
  assumes "calloc_grid_ok e" "calloc_diff_ok e"
  shows "\<exists>s. startup e = Inr s
           \<and> gw s = 256 \<and> gh s = 256 \<and> gs s = gw s * gh s
           \<and> grid s = replicate (nat (gw s * gh s)) 0
           \<and> diff s = replicate (nat (gw s * gh s)) 0
           \<and> (\<forall>r c. cell_at s r c = 0)"
proof -
  let ?s = "\<lparr>gw = 256, gh = 256, gs = 65536,
           grid = replicate 65536 0, diff = replicate 65536 0,
           rows = uint (ws_row e), cols = uint (ws_col e), generation = 0\<rparr>"
  have "cell_at ?s r c = 0" for r c
  proof (cases "0 \<le> r \<and> r < 256 \<and> 0 \<le> c \<and> c < 256")
    case True
    then have "nat (r * 256 + c) < 65536" by linarith
    then have "replicate 65536 (0::int) ! nat (r * 256 + c) = 0" by (rule nth_replicate)
    then show ?thesis using True by (simp add: cell_at_def)
  next
    case False
    then show ?thesis unfolding cell_at_def by auto
  qed
  then show ?thesis using startup_ok[OF assms] by simp
qed

theorem startup_two_zeroed_buffers_witness:
  "calloc_grid_ok env_tty \<and> calloc_diff_ok env_tty
   \<and> (\<exists>s. startup env_tty = Inr s \<and> gs s = 65536 \<and> length (grid s) = 65536
          \<and> length (diff s) = 65536 \<and> cell_at s 255 255 = 0)"
proof -
  have h: "calloc_grid_ok env_tty" "calloc_diff_ok env_tty" by (simp_all add: env_tty_def)
  obtain s where s: "startup env_tty = Inr s" "gw s = 256" "gh s = 256" "gs s = gw s * gh s"
      "grid s = replicate (nat (gw s * gh s)) 0" "diff s = replicate (nat (gw s * gh s)) 0"
      "\<forall>r c. cell_at s r c = 0"
    using startup_two_zeroed_buffers[OF h] by blast
  have "gs s = 65536" "length (grid s) = 65536" "length (diff s) = 65536" "cell_at s 255 255 = 0"
    using s by simp_all
  then show ?thesis using h s(1) by simp
qed


section \<open>gridfile has no bounds\<close>

lemma lines_acc_newlines:
  "lines_acc [] (replicate n (CHR 0x0A) @ rest) = replicate n [CHR 0x0A] @ lines_acc [] rest"
  by (induction n) simp_all

lemma gridfile_line_blank: "gridfile_line s [CHR 0x0A] r 0 0 = Some (grid s)"
  by (subst gridfile_line.simps) (simp add: line_at_def)

lemma gridfile_rows_blank:
  "gridfile_rows s (replicate n [CHR 0x0A] @ ls) r = gridfile_rows s ls (r + int n)"
proof (induction n arbitrary: r)
  case 0
  then show ?case by simp
next
  case (Suc n)
  have "gridfile_rows s (replicate (Suc n) [CHR 0x0A] @ ls) r
        = gridfile_rows s (replicate n [CHR 0x0A] @ ls) (r + 1)"
    by (simp add: gridfile_line_blank)
  also have "\<dots> = gridfile_rows s ls (r + 1 + int n)" by (rule Suc.IH)
  finally show ?case by (simp add: add.assoc)
qed

text \<open>
  Claim C4 says that \<open>gridfile\<close> never writes outside the allocated grid. On the default
  256 x 256 grid, a pattern file of 256 empty lines followed by the line \<open>1\<close> makes
  \<open>gridfile\<close> write \<open>grid[65536]\<close>, one cell past the end of the buffer: the loops have no
  bound on the row or the column.
\<close>

theorem gridfile_writes_past_grid:
  "gridfile (Some (replicate 256 (CHR 0x0A) @ [CHR ''1'', CHR 0x0A])) fresh256 = None"
proof -
  have l: "getlines (replicate 256 (CHR 0x0A) @ [CHR ''1'', CHR 0x0A])
           = replicate 256 [CHR 0x0A] @ [[CHR ''1'', CHR 0x0A]]"
    unfolding getlines_def lines_acc_newlines by simp
  have w: "wr (grid fresh256) (256 * gw fresh256 + 0) 1 = None"
    by (simp add: wr_def fresh256_def)
  have "gridfile_line fresh256 ([CHR ''1'', CHR 0x0A]) 256 0 0 = None"
    using w by (subst gridfile_line.simps) (simp add: line_at_def)
  then have "gridfile_rows fresh256 (replicate 256 [CHR 0x0A] @ [[CHR ''1'', CHR 0x0A]]) 0 = None"
    unfolding gridfile_rows_blank by simp
  then show ?thesis by (simp add: gridfile_def l)
qed

text \<open>
  The same missing bound on the columns, on a 3 x 3 grid: a file with the single line
  \<open>0 0 0 1\<close> makes the cell at row 1, column 0 alive, a row the file has no line for.
\<close>

lemma gridfile_column_spill:
  "\<exists>s'. gridfile (Some (''0 0 0 1'' @ [CHR 0x0A])) dead3x3 = Some (0, s') \<and> cell_at s' 1 0 = 1"
  by (simp add: gridfile_def getlines_def gridfile_line.simps line_at_def wr_def dead3x3_def
      cell_at_def)

text \<open>
  A last line without a newline and with an odd number of bytes: \<open>p += 2\<close> steps over the
  terminating NUL and the loop reads on.
\<close>

lemma gridfile_reads_past_line:
  "gridfile (Some ''1'') dead3x3 = None"
  by (simp add: gridfile_def getlines_def gridfile_line.simps line_at_def wr_def dead3x3_def)

section \<open>What gridfile does with a file that fits the grid\<close>

lemma line_cells_Nil:
  assumes "line_cells l p = Some []"
  shows "\<exists>ch. line_at l p = Some ch \<and> \<not> (ch \<noteq> CHR 0x00 \<and> ch \<noteq> CHR 0x0A)"
  using assms by (subst (asm) line_cells.simps) (auto split: option.splits if_splits)

lemma line_cells_Cons:
  assumes "line_cells l p = Some (v # vs)"
  shows "p < length l \<and> l ! p \<noteq> CHR 0x00 \<and> l ! p \<noteq> CHR 0x0A
         \<and> line_at l p = Some (l ! p)
         \<and> v = (if l ! p = CHR ''1'' then 1 else 0) \<and> line_cells l (p + 2) = Some vs"
  using assms
  by (subst (asm) line_cells.simps) (auto simp: line_at_def split: option.splits if_splits)

lemma line_cells_nth:
  assumes "line_cells l p = Some vs" "j < length vs"
  shows "p + 2 * j < length l \<and> vs ! j = (if l ! (p + 2 * j) = CHR ''1'' then 1 else 0)"
  using assms
proof (induction vs arbitrary: p j)
  case Nil
  then show ?case by simp
next
  case (Cons v vs)
  note c = line_cells_Cons[OF Cons.prems(1)]
  show ?case
  proof (cases j)
    case 0
    then show ?thesis using c by simp
  next
    case (Suc i)
    then have "i < length vs" using Cons.prems(2) by simp
    from Cons.IH[OF _ this, of "p + 2"] c
    have "p + 2 + 2 * i < length l \<and> vs ! i = (if l ! (p + 2 + 2 * i) = CHR ''1'' then 1 else 0)"
      by simp
    moreover have "p + 2 + 2 * i = p + 2 * j" using Suc by simp
    ultimately show ?thesis using Suc by simp
  qed
qed

lemma gridfile_line_cells:
  assumes "line_cells l p = Some vs" "c + int (length vs) \<le> gw s" "0 < gw s"
      and "int (length (grid s)) = gw s * gh s" "0 \<le> r" "r < gh s" "0 \<le> c"
  shows "\<exists>g. gridfile_line s l r c p = Some g \<and> length g = length (grid s)
            \<and> (\<forall>a b. 0 \<le> a \<and> a < gh s \<and> 0 \<le> b \<and> b < gw s \<longrightarrow>
                 g ! nat (a * gw s + b)
                 = (if a = r \<and> c \<le> b \<and> b < c + int (length vs) then vs ! nat (b - c)
                    else grid s ! nat (a * gw s + b)))"
  using assms
proof (induction vs arbitrary: s c p)
  case Nil
  obtain ch where "line_at l p = Some ch" "\<not> (ch \<noteq> CHR 0x00 \<and> ch \<noteq> CHR 0x0A)"
    using line_cells_Nil[OF Nil.prems(1)] by blast
  then have "gridfile_line s l r c p = Some (grid s)"
    by (subst gridfile_line.simps) auto
  then show ?case by simp
next
  case (Cons v vs)
  note lc = line_cells_Cons[OF Cons.prems(1)]
  have lt: "c < gw s" using Cons.prems(2) by simp
  let ?g1 = "(grid s)[nat (r * gw s + c) := v]"
  let ?s1 = "s\<lparr>grid := ?g1\<rparr>"
  have bd: "0 \<le> r * gw s + c \<and> r * gw s + c < gw s * gh s"
    using flat_bound[of r "gh s" c "gw s"] Cons.prems lt by simp
  have w: "wr (grid s) (r * gw s + c) v = Some ?g1"
    using bd Cons.prems(4) by (simp add: wr_Some)
  have step: "gridfile_line s l r c p = gridfile_line ?s1 l r (c + 1) (p + 2)"
    using lc w by (subst gridfile_line.simps) simp
  have p2: "c + 1 + int (length vs) \<le> gw ?s1" using Cons.prems(2) by simp
  have p3: "0 < gw ?s1" using Cons.prems(3) by simp
  have p4: "int (length (grid ?s1)) = gw ?s1 * gh ?s1" using Cons.prems(4) by simp
  have p6: "r < gh ?s1" using Cons.prems(6) by simp
  have p7: "0 \<le> c + 1" using Cons.prems(7) by simp
  have p1: "line_cells l (p + 2) = Some vs" using lc by simp
  from Cons.IH[OF p1 p2 p3 p4 Cons.prems(5) p6 p7]
  obtain g where g: "gridfile_line ?s1 l r (c + 1) (p + 2) = Some g"
      and len: "length g = length (grid ?s1)"
      and cells: "\<forall>a b. 0 \<le> a \<and> a < gh ?s1 \<and> 0 \<le> b \<and> b < gw ?s1 \<longrightarrow>
                 g ! nat (a * gw ?s1 + b)
                 = (if a = r \<and> c + 1 \<le> b \<and> b < c + 1 + int (length vs) then vs ! nat (b - (c + 1))
                    else grid ?s1 ! nat (a * gw ?s1 + b))"
    by blast
  have "g ! nat (a * gw s + b)
        = (if a = r \<and> c \<le> b \<and> b < c + int (length (v # vs)) then (v # vs) ! nat (b - c)
           else grid s ! nat (a * gw s + b))"
    if ab: "0 \<le> a" "a < gh s" "0 \<le> b" "b < gw s" for a b
  proof -
    have u: "?g1 ! nat (a * gw s + b) = (if a = r \<and> b = c then v else grid s ! nat (a * gw s + b))"
      using nth_flat_upd[of s r c a b "grid s" v] Cons.prems lt ab by simp
    have c1: "g ! nat (a * gw s + b)
        = (if a = r \<and> c + 1 \<le> b \<and> b < c + 1 + int (length vs) then vs ! nat (b - (c + 1))
           else ?g1 ! nat (a * gw s + b))"
      using cells ab by simp
    show ?thesis
    proof (cases "a = r \<and> c + 1 \<le> b \<and> b < c + 1 + int (length vs)")
      case True
      then have "nat (b - c) = Suc (nat (b - (c + 1)))" by linarith
      then have "(v # vs) ! nat (b - c) = vs ! nat (b - (c + 1))" by simp
      then show ?thesis unfolding c1 using True by simp
    next
      case False
      then show ?thesis unfolding c1 u by auto
    qed
  qed
  then have cells': "\<forall>a b. 0 \<le> a \<and> a < gh s \<and> 0 \<le> b \<and> b < gw s \<longrightarrow>
                 g ! nat (a * gw s + b)
                 = (if a = r \<and> c \<le> b \<and> b < c + int (length (v # vs)) then (v # vs) ! nat (b - c)
                    else grid s ! nat (a * gw s + b))"
    by blast
  have len': "length g = length (grid s)" using len by simp
  from step g len' cells' show ?case by simp
qed


lemma gridfile_rows_cells:
  assumes "lines_fit (gw s) ls" "r + int (length ls) \<le> gh s" "0 \<le> r" "0 < gw s"
      and "int (length (grid s)) = gw s * gh s"
  shows "\<exists>g. gridfile_rows s ls r = Some (s\<lparr>grid := g\<rparr>) \<and> length g = length (grid s)
            \<and> (\<forall>a b. 0 \<le> a \<and> a < gh s \<and> 0 \<le> b \<and> b < gw s \<longrightarrow>
                 g ! nat (a * gw s + b)
                 = (if r \<le> a \<and> a < r + int (length ls)
                       \<and> b < int (length (cells_of (ls ! nat (a - r))))
                    then cells_of (ls ! nat (a - r)) ! nat b
                    else grid s ! nat (a * gw s + b)))"
  using assms
proof (induction ls arbitrary: s r)
  case Nil
  show ?case by (intro exI[of _ "grid s"]) simp
next
  case (Cons l ls)
  obtain vs where vs: "line_cells l 0 = Some vs" and fit: "int (length vs) \<le> gw s"
    and rest: "lines_fit (gw s) ls"
    using Cons.prems(1) by (auto simp: lines_fit_def cells_of_def)
  have cl: "cells_of l = vs" using vs by (simp add: cells_of_def)
  have rlt: "r < gh s" using Cons.prems(2) by simp
  have fit0: "0 + int (length vs) \<le> gw s" using fit by simp
  from gridfile_line_cells[OF vs fit0 Cons.prems(4,5,3) rlt order_refl]
  obtain g1 where g1: "gridfile_line s l r 0 0 = Some g1"
      and len1: "length g1 = length (grid s)"
      and cells1: "\<forall>a b. 0 \<le> a \<and> a < gh s \<and> 0 \<le> b \<and> b < gw s \<longrightarrow>
                 g1 ! nat (a * gw s + b)
                 = (if a = r \<and> 0 \<le> b \<and> b < 0 + int (length vs) then vs ! nat (b - 0)
                    else grid s ! nat (a * gw s + b))"
    by blast
  let ?s1 = "s\<lparr>grid := g1\<rparr>"
  have step: "gridfile_rows s (l # ls) r = gridfile_rows ?s1 ls (r + 1)"
    using g1 by simp
  have p1: "lines_fit (gw ?s1) ls" using rest by simp
  have p2: "r + 1 + int (length ls) \<le> gh ?s1" using Cons.prems(2) by simp
  have p3: "0 \<le> r + 1" using Cons.prems(3) by simp
  have p4: "0 < gw ?s1" using Cons.prems(4) by simp
  have p5: "int (length (grid ?s1)) = gw ?s1 * gh ?s1" using Cons.prems(5) len1 by simp
  from Cons.IH[OF p1 p2 p3 p4 p5]
  obtain g where g: "gridfile_rows ?s1 ls (r + 1) = Some (?s1\<lparr>grid := g\<rparr>)"
      and len: "length g = length (grid ?s1)"
      and cells: "\<forall>a b. 0 \<le> a \<and> a < gh ?s1 \<and> 0 \<le> b \<and> b < gw ?s1 \<longrightarrow>
                 g ! nat (a * gw ?s1 + b)
                 = (if r + 1 \<le> a \<and> a < r + 1 + int (length ls)
                       \<and> b < int (length (cells_of (ls ! nat (a - (r + 1)))))
                    then cells_of (ls ! nat (a - (r + 1))) ! nat b
                    else grid ?s1 ! nat (a * gw ?s1 + b))"
    by blast
  have "g ! nat (a * gw s + b)
        = (if r \<le> a \<and> a < r + int (length (l # ls))
              \<and> b < int (length (cells_of ((l # ls) ! nat (a - r))))
           then cells_of ((l # ls) ! nat (a - r)) ! nat b
           else grid s ! nat (a * gw s + b))"
    if ab: "0 \<le> a" "a < gh s" "0 \<le> b" "b < gw s" for a b
  proof -
    have u: "g1 ! nat (a * gw s + b)
        = (if a = r \<and> b < int (length vs) then vs ! nat b else grid s ! nat (a * gw s + b))"
      using cells1 ab by simp
    have c1: "g ! nat (a * gw s + b)
        = (if r + 1 \<le> a \<and> a < r + 1 + int (length ls)
              \<and> b < int (length (cells_of (ls ! nat (a - (r + 1)))))
           then cells_of (ls ! nat (a - (r + 1))) ! nat b
           else g1 ! nat (a * gw s + b))"
      using cells ab by simp
    consider "a < r" | "a = r" | "r + 1 \<le> a" by linarith
    then show ?thesis
    proof cases
      case 1
      then show ?thesis unfolding c1 u by simp
    next
      case 2
      then show ?thesis unfolding c1 u by (simp add: cl)
    next
      case 3
      then have "nat (a - r) = Suc (nat (a - (r + 1)))" by linarith
      then have "(l # ls) ! nat (a - r) = ls ! nat (a - (r + 1))" by simp
      then show ?thesis unfolding c1 u using 3 by auto
    qed
  qed
  then have cells': "\<forall>a b. 0 \<le> a \<and> a < gh s \<and> 0 \<le> b \<and> b < gw s \<longrightarrow>
        g ! nat (a * gw s + b)
        = (if r \<le> a \<and> a < r + int (length (l # ls))
              \<and> b < int (length (cells_of ((l # ls) ! nat (a - r))))
           then cells_of ((l # ls) ! nat (a - r)) ! nat b
           else grid s ! nat (a * gw s + b))"
    by blast
  have run: "gridfile_rows s (l # ls) r = Some (s\<lparr>grid := g\<rparr>)" using step g by simp
  have len': "length g = length (grid s)" using len len1 by simp
  from run len' cells' show ?case by blast
qed

lemma cells_of_nth:
  assumes "line_cells l 0 \<noteq> None" "j < length (cells_of l)"
  shows "2 * j < length l \<and> cells_of l ! j = (if l ! (2 * j) = CHR ''1'' then 1 else 0)"
proof -
  obtain vs where vs: "line_cells l 0 = Some vs" using assms(1) by blast
  then have "cells_of l = vs" by (simp add: cells_of_def)
  then show ?thesis using line_cells_nth[OF vs, of j] assms(2) by simp
qed

text \<open>
  What \<open>gridfile\<close> does with a file that fits the grid (no more lines than rows, every
  line decodable with no more cells than columns): it returns 0, a cell that a line
  encodes is alive exactly when the byte at offset \<open>2 * col\<close> of that line is \<open>'1'\<close>, and
  every other cell keeps its state.
\<close>

lemma gridfile_fitting_file:
  assumes "well_formed s" "int (length (getlines content)) \<le> gh s"
      and "lines_fit (gw s) (getlines content)"
  shows "\<exists>s'. gridfile (Some content) s = Some (0, s')
           \<and> (\<forall>r c. 0 \<le> r \<and> r < gh s \<and> 0 \<le> c \<and> c < gw s \<longrightarrow>
                 cell_at s' r c
                 = (if r < int (length (getlines content))
                       \<and> c < int (length (cells_of (getlines content ! nat r)))
                    then (if getlines content ! nat r ! (2 * nat c) = CHR ''1'' then 1 else 0)
                    else cell_at s r c))"
proof -
  let ?ls = "getlines content"
  have w: "0 < gw s" and len: "int (length (grid s)) = gw s * gh s"
    using assms(1) by (simp_all add: well_formed_def)
  have h0: "0 + int (length ?ls) \<le> gh s" using assms(2) by simp
  from gridfile_rows_cells[OF assms(3) h0 order_refl w len]
  obtain g where g: "gridfile_rows s ?ls 0 = Some (s\<lparr>grid := g\<rparr>)"
      and cells: "\<forall>a b. 0 \<le> a \<and> a < gh s \<and> 0 \<le> b \<and> b < gw s \<longrightarrow>
                 g ! nat (a * gw s + b)
                 = (if 0 \<le> a \<and> a < 0 + int (length ?ls)
                       \<and> b < int (length (cells_of (?ls ! nat (a - 0))))
                    then cells_of (?ls ! nat (a - 0)) ! nat b
                    else grid s ! nat (a * gw s + b))"
    by blast
  let ?s' = "s\<lparr>grid := g\<rparr>"
  have run: "gridfile (Some content) s = Some (0, ?s')" using g by (simp add: gridfile_def)
  have "cell_at ?s' r c
        = (if r < int (length ?ls) \<and> c < int (length (cells_of (?ls ! nat r)))
           then (if ?ls ! nat r ! (2 * nat c) = CHR ''1'' then 1 else 0)
           else cell_at s r c)"
    if rc: "0 \<le> r \<and> r < gh s \<and> 0 \<le> c \<and> c < gw s" for r c
  proof -
    have c0: "cell_at ?s' r c = g ! nat (r * gw s + c)" using rc by (simp add: cell_at_def)
    have c1: "g ! nat (r * gw s + c)
         = (if r < int (length ?ls) \<and> c < int (length (cells_of (?ls ! nat r)))
            then cells_of (?ls ! nat r) ! nat c else cell_at s r c)"
      using cells rc by (simp add: cell_at_def)
    show ?thesis
    proof (cases "r < int (length ?ls) \<and> c < int (length (cells_of (?ls ! nat r)))")
      case True
      then have "?ls ! nat r \<in> set ?ls" using rc by (intro nth_mem) linarith
      then have d: "line_cells (?ls ! nat r) 0 \<noteq> None"
        using assms(3) by (simp add: lines_fit_def list_all_iff)
      have "nat c < length (cells_of (?ls ! nat r))" using True rc by linarith
      from cells_of_nth[OF d this] show ?thesis unfolding c0 c1 using True by simp
    next
      case False
      then show ?thesis unfolding c0 c1 by auto
    qed
  qed
  then show ?thesis using run by blast
qed


text \<open>The line \<open>1 0 1\<close> of the specification's example, loaded into a dead 3 x 3 grid.\<close>

lemma gridfile_example:
  "gridfile (Some (''1 0 1'' @ [CHR 0x0A])) dead3x3
   = Some (0, dead3x3\<lparr>grid := [1,0,1, 0,0,0, 0,0,0]\<rparr>)"
  by (simp add: gridfile_def getlines_def gridfile_line.simps line_at_def wr_def dead3x3_def)

end
